theory Spec2Isabelle
  imports Complex_Main "HOL-Library.Word"
begin

unbundle bit_operations_syntax

section \<open>Conventions\<close>

text \<open>
  The plugin is TypeScript. Its numbers are IEEE doubles (and single floats inside
  \<^verbatim>\<open>Float32Array\<close>s); this development reads every arithmetic operation on them
  as the exact operation on \<^typ>\<open>real\<close>: the rounding of double arithmetic, infinities
  and overflow are not represented. Two float effects are kept. A \<^verbatim>\<open>NaN\<close> produced by
  reading a typed array outside its range is \<^term>\<open>None\<close> in \<^typ>\<open>real option\<close>: every
  comparison with it is false and every sum with it is \<^term>\<open>None\<close> again. And the
  engine's tick writes its bands into \<^verbatim>\<open>Float32Array\<close>s (\<^verbatim>\<open>rawBins\<close>,
  \<^verbatim>\<open>smoothedBins\<close>) and compares what it reads back: each such store keeps the nearest
  single float, ties to even, which is \<open>toFloat32\<close> below. The renderer's
  \<^verbatim>\<open>curveHeights\<close> are left unrounded.
  Bytes, array indices and counters are natural numbers or integers; 32-bit
  integer operations (\<^verbatim>\<open>| 0\<close>, \<^verbatim>\<open>>>> 0\<close>) are written out where they occur.
\<close>

type_synonym jsnum = "real option"

definition jsAdd :: "jsnum \<Rightarrow> jsnum \<Rightarrow> jsnum" where
  "jsAdd a b = (case a of None \<Rightarrow> None | Some x \<Rightarrow> (case b of None \<Rightarrow> None | Some y \<Rightarrow> Some (x + y)))"

definition jsMul :: "jsnum \<Rightarrow> real \<Rightarrow> jsnum" where
  "jsMul a k = (case a of None \<Rightarrow> None | Some x \<Rightarrow> Some (x * k))"

definition jsAbsDiffGt :: "jsnum \<Rightarrow> jsnum \<Rightarrow> real \<Rightarrow> bool" where
  \<comment> \<open>\<^verbatim>\<open>Math.abs(a - b) > t\<close>\<close>
  "jsAbsDiffGt a b t = (case a of None \<Rightarrow> False | Some x \<Rightarrow> (case b of None \<Rightarrow> False | Some y \<Rightarrow> \<bar>x - y\<bar> > t))"

definition readF32 :: "real list \<Rightarrow> int \<Rightarrow> jsnum" where
  \<comment> \<open>\<^verbatim>\<open>arr[k]\<close> on a typed array, used as a number: \<^verbatim>\<open>undefined\<close> outside the range\<close>
  "readF32 arr k = (if 0 \<le> k \<and> k < int (length arr) then Some (arr ! nat k) else None)"

text \<open>
  A store into a \<^verbatim>\<open>Float32Array\<close>. A single float has a 24-bit significand and a binary
  exponent between -126 and 127; below \<open>2 powi (- 126)\<close> the spacing stays that of the
  exponent -126 (subnormal numbers). Magnitudes that round beyond the largest single float
  become \<^verbatim>\<open>Infinity\<close> in the code, which is not represented here; the values stored by a
  tick are at most 1.
\<close>

definition roundTiesEven :: "real \<Rightarrow> int" where
  "roundTiesEven v =
     (let f = \<lfloor>v\<rfloor>; d = v - of_int f in
      if d < 1 / 2 then f else if d > 1 / 2 then f + 1 else if even f then f else f + 1)"

fun expUp :: "real \<Rightarrow> nat \<Rightarrow> int \<Rightarrow> int" where
  "expUp a 0 e = e"
| "expUp a (Suc n) e = (if 2 powi (e + 1) \<le> a then expUp a n (e + 1) else e)"

fun expDown :: "real \<Rightarrow> nat \<Rightarrow> int \<Rightarrow> int" where
  "expDown a 0 e = e"
| "expDown a (Suc n) e = (if a < 2 powi e then expDown a n (e - 1) else e)"

definition float32Exponent :: "real \<Rightarrow> int" where
  \<comment> \<open>the exponent of a positive magnitude, kept between -126 and 127\<close>
  "float32Exponent a = (if 1 \<le> a then expUp a 127 0 else expDown a 125 (- 1))"

definition toFloat32 :: "real \<Rightarrow> real" where
  "toFloat32 v =
     (if v = 0 then 0
      else (let a = \<bar>v\<bar>; ulp = 2 powi (float32Exponent a - 23)
            in sgn v * real_of_int (roundTiesEven (a / ulp)) * ulp))"

section \<open>audio-engine.ts: constants and state\<close>

definition TOTAL_BINS :: nat where "TOTAL_BINS = 20"
definition BARS_PER_DIAL :: nat where "BARS_PER_DIAL = 5"
definition DIRTY_THRESHOLD :: real where "DIRTY_THRESHOLD = 0.015"
definition SMOOTH_ATTACK :: real where "SMOOTH_ATTACK = 0.75"
definition SMOOTH_DECAY :: real where "SMOOTH_DECAY = 0.75"
definition AUTO_GAIN_ATTACK :: real where "AUTO_GAIN_ATTACK = 0.03"
definition AUTO_GAIN_DECAY :: real where "AUTO_GAIN_DECAY = 0.001"
definition AUTO_GAIN_MIN_PEAK :: real where "AUTO_GAIN_MIN_PEAK = 0.08"
definition AUTO_GAIN_MAX_BOOST :: real where "AUTO_GAIN_MAX_BOOST = 1.5"
definition SPECTRAL_SMOOTH_PASSES :: nat where "SPECTRAL_SMOOTH_PASSES = 1"

text \<open>\<^verbatim>\<open>THEME_NAMES = Object.keys(THEMES)\<close>: the keys of the theme table in insertion order.\<close>

definition THEME_NAMES :: "string list" where
  "THEME_NAMES = [''neon'', ''classic'', ''ocean'', ''fire'', ''purple'']"

record 'h RegisteredAction =
  action :: 'h
  column :: int
  lastSent :: "jsnum list"
  lastLeftEdge :: jsnum
  lastRightEdge :: jsnum

text \<open>
  The engine. The two audio sources, the timer handle and the frame clock are outside
  the model: \<open>tick\<close> below receives the raw bins that the active source returned, a
  \<^verbatim>\<open>Float32Array\<close> of \<open>TOTAL_BINS\<close> numbers.
  \<open>actions\<close> is the \<^verbatim>\<open>Map\<close> of registrations in insertion order.
\<close>

record 'h AudioEngine =
  actions :: "(string \<times> 'h RegisteredAction) list"
  smoothedBins :: "real list"
  gain :: real
  themeIndex :: nat
  autoGainPeak :: real

definition newAudioEngine :: "'h AudioEngine" where
  "newAudioEngine = \<lparr> actions = [], smoothedBins = replicate TOTAL_BINS 0, gain = 1.0,
     themeIndex = 0, autoGainPeak = AUTO_GAIN_MIN_PEAK \<rparr>"

definition currentTheme :: "'h AudioEngine \<Rightarrow> string" where
  \<comment> \<open>\<^verbatim>\<open>THEME_NAMES[this.themeIndex] ?? "neon"\<close>\<close>
  "currentTheme e = (if themeIndex e < length THEME_NAMES then THEME_NAMES ! themeIndex e else ''neon'')"

definition currentGain :: "'h AudioEngine \<Rightarrow> real" where
  "currentGain e = gain e"

fun mapSet :: "string \<Rightarrow> 'v \<Rightarrow> (string \<times> 'v) list \<Rightarrow> (string \<times> 'v) list" where
  \<comment> \<open>\<^verbatim>\<open>Map.prototype.set\<close>: an existing key keeps its place, a new key goes last\<close>
  "mapSet k v [] = [(k, v)]"
| "mapSet k v ((k', v') # kvs) = (if k' = k then (k, v) # kvs else (k', v') # mapSet k v kvs)"

definition registerAction :: "string \<Rightarrow> 'h \<Rightarrow> int \<Rightarrow> 'h AudioEngine \<Rightarrow> 'h AudioEngine" where
  "registerAction actionId act col e =
     e\<lparr> actions := mapSet actionId
          \<lparr> action = act, column = col, lastSent = replicate BARS_PER_DIAL (Some 0),
            lastLeftEdge = Some (-1), lastRightEdge = Some (-1) \<rparr> (actions e) \<rparr>"

definition unregisterAction :: "string \<Rightarrow> 'h AudioEngine \<Rightarrow> 'h AudioEngine" where
  "unregisterAction actionId e = e\<lparr> actions := filter (\<lambda>kv. fst kv \<noteq> actionId) (actions e) \<rparr>"

definition adjustGain :: "real \<Rightarrow> 'h AudioEngine \<Rightarrow> 'h AudioEngine" where
  "adjustGain delta e = e\<lparr> gain := max 0.2 (min 3.0 (gain e + delta)) \<rparr>"

definition nextTheme :: "'h AudioEngine \<Rightarrow> 'h AudioEngine" where
  "nextTheme e = e\<lparr> themeIndex := (themeIndex e + 1) mod length THEME_NAMES \<rparr>"

section \<open>audio-engine.ts: one tick\<close>

definition framePeakOf :: "real list \<Rightarrow> real" where
  "framePeakOf rawBins = foldl (\<lambda>framePeak i. if rawBins ! i > framePeak then rawBins ! i else framePeak) 0 [0..<TOTAL_BINS]"

definition trackPeak :: "real \<Rightarrow> real \<Rightarrow> real" where
  "trackPeak peak framePeak =
     max (if framePeak > peak then peak + (framePeak - peak) * AUTO_GAIN_ATTACK
          else peak - (peak - max framePeak AUTO_GAIN_MIN_PEAK) * AUTO_GAIN_DECAY)
         AUTO_GAIN_MIN_PEAK"

definition autoBoostOf :: "real \<Rightarrow> real" where
  "autoBoostOf peak = min AUTO_GAIN_MAX_BOOST (1.0 / peak)"

definition applyGain :: "real \<Rightarrow> real \<Rightarrow> real list \<Rightarrow> real list" where
  "applyGain g autoBoost rawBins = map (\<lambda>i. toFloat32 (min 1 (rawBins ! i * g * autoBoost))) [0..<TOTAL_BINS]"

definition spectralPass :: "real list \<Rightarrow> real list" where
  \<comment> \<open>one pass: \<open>spectralTemp\<close> is a copy of the bins, the interior bins are rewritten from it\<close>
  "spectralPass rawBins =
     (let spectralTemp = rawBins in
      map (\<lambda>i. if 1 \<le> i \<and> i < TOTAL_BINS - 1
                then toFloat32 (spectralTemp ! (i - 1) * 0.25 + spectralTemp ! i * 0.5 + spectralTemp ! (i + 1) * 0.25)
                else rawBins ! i) [0..<TOTAL_BINS])"

definition spectralSmooth :: "real list \<Rightarrow> real list" where
  "spectralSmooth rawBins = (spectralPass ^^ SPECTRAL_SMOOTH_PASSES) rawBins"

definition smoothBin :: "real \<Rightarrow> real \<Rightarrow> real" where
  \<comment> \<open>the body of the temporal smoothing loop for one band: raw value, previous smoothed value.
     Both branches assign to \<^verbatim>\<open>smoothedBins[i]\<close>; the test against 0.01 reads the element back\<close>
  "smoothBin raw prev =
     (if raw > prev then toFloat32 (prev + (raw - prev) * SMOOTH_ATTACK)
      else (let stored = toFloat32 (prev * SMOOTH_DECAY) in if stored < 0.01 then 0 else stored))"

definition temporalSmooth :: "real list \<Rightarrow> real list \<Rightarrow> real list" where
  "temporalSmooth rawBins smoothed = map (\<lambda>i. smoothBin (rawBins ! i) (smoothed ! i)) [0..<TOTAL_BINS]"

text \<open>
  The arguments of one \<^verbatim>\<open>renderVisualizerFrame\<close> call whose result is handed to
  \<^verbatim>\<open>setFeedback\<close>: one delivered frame.
\<close>

record FrameCall =
  fcBins :: "jsnum list"
  fcTheme :: string
  fcNumBars :: nat
  fcLeftEdge :: jsnum
  fcRightEdge :: jsnum

definition dialSliceOf :: "real list \<Rightarrow> int \<Rightarrow> jsnum list" where
  "dialSliceOf smoothed col =
     (let startBin = col * int BARS_PER_DIAL in map (\<lambda>b. readF32 smoothed (startBin + int b)) [0..<BARS_PER_DIAL])"

definition leftEdgeOf :: "real list \<Rightarrow> int \<Rightarrow> jsnum" where
  "leftEdgeOf smoothed col =
     (let startBin = col * int BARS_PER_DIAL in
      if col > 0 then jsMul (jsAdd (readF32 smoothed (startBin - 1)) (readF32 smoothed startBin)) 0.5
      else Some 0)"

definition rightEdgeOf :: "real list \<Rightarrow> int \<Rightarrow> jsnum" where
  "rightEdgeOf smoothed col =
     (let startBin = col * int BARS_PER_DIAL in
      if col < 3
      then jsMul (jsAdd (readF32 smoothed (startBin + int BARS_PER_DIAL - 1))
                        (readF32 smoothed (startBin + int BARS_PER_DIAL))) 0.5
      else Some 0)"

definition isDirty :: "jsnum list \<Rightarrow> jsnum \<Rightarrow> jsnum \<Rightarrow> 'h RegisteredAction \<Rightarrow> bool" where
  "isDirty dialSlice leftEdge rightEdge reg =
     (let dirty = list_ex (\<lambda>b. jsAbsDiffGt (dialSlice ! b) (lastSent reg ! b) DIRTY_THRESHOLD) [0..<BARS_PER_DIAL]
      in if \<not> dirty
         then jsAbsDiffGt leftEdge (lastLeftEdge reg) DIRTY_THRESHOLD \<or>
              jsAbsDiffGt rightEdge (lastRightEdge reg) DIRTY_THRESHOLD
         else dirty)"

definition tickAction :: "real list \<Rightarrow> string \<Rightarrow> 'h RegisteredAction \<Rightarrow> 'h RegisteredAction \<times> FrameCall list" where
  \<comment> \<open>the body of the loop over the registrations; the list holds the frames delivered (none or one)\<close>
  "tickAction smoothed theme reg =
     (let dialSlice = dialSliceOf smoothed (column reg);
          leftEdge = leftEdgeOf smoothed (column reg);
          rightEdge = rightEdgeOf smoothed (column reg)
      in if \<not> isDirty dialSlice leftEdge rightEdge reg then (reg, [])
         else (reg\<lparr> lastSent := dialSlice, lastLeftEdge := leftEdge, lastRightEdge := rightEdge \<rparr>,
               [\<lparr> fcBins = dialSlice, fcTheme = theme, fcNumBars = BARS_PER_DIAL,
                  fcLeftEdge = leftEdge, fcRightEdge = rightEdge \<rparr>]))"

definition tick :: "real list \<Rightarrow> 'h AudioEngine \<Rightarrow> 'h AudioEngine \<times> (string \<times> FrameCall) list" where
  \<comment> \<open>returns the engine after the tick and the frames delivered, each with the key of its consumer\<close>
  "tick rawBins0 e =
     (let framePeak = framePeakOf rawBins0;
          peak = trackPeak (autoGainPeak e) framePeak;
          autoBoost = autoBoostOf peak;
          rawBins = spectralSmooth (applyGain (gain e) autoBoost rawBins0);
          smoothed = temporalSmooth rawBins (smoothedBins e);
          results = map (\<lambda>(k, reg). (k, tickAction smoothed (currentTheme e) reg)) (actions e)
      in (e\<lparr> actions := map (\<lambda>(k, r). (k, fst r)) results, smoothedBins := smoothed, autoGainPeak := peak \<rparr>,
          concat (map (\<lambda>(k, r). map (Pair k) (snd r)) results)))"

definition framesFor :: "string \<Rightarrow> (string \<times> FrameCall) list \<Rightarrow> FrameCall list" where
  "framesFor actionId out = map snd (filter (\<lambda>kf. fst kf = actionId) out)"

definition processedBins :: "real list \<Rightarrow> 'h AudioEngine \<Rightarrow> real list" where
  \<comment> \<open>the raw bins of a tick after auto-gain, user gain and spectral smoothing\<close>
  "processedBins rawBins0 e =
     spectralSmooth (applyGain (gain e) (autoBoostOf (trackPeak (autoGainPeak e) (framePeakOf rawBins0))) rawBins0)"

text \<open>
  The states an engine goes through: the constructor's, and what the public operations and the
  tick make of them. \<open>engineInv\<close> collects what holds in all of them.
\<close>

definition engineInv :: "'h AudioEngine \<Rightarrow> bool" where
  "engineInv e \<longleftrightarrow>
     length (smoothedBins e) = TOTAL_BINS \<and> list_all (\<lambda>v. 0 \<le> v \<and> v \<le> 1) (smoothedBins e) \<and>
     distinct (map fst (actions e)) \<and> 0.2 \<le> gain e \<and> gain e \<le> 3.0 \<and>
     themeIndex e < length THEME_NAMES \<and> AUTO_GAIN_MIN_PEAK \<le> autoGainPeak e"

inductive reachable :: "'h AudioEngine \<Rightarrow> bool" where
  r_new: "reachable newAudioEngine"
| r_register: "reachable e \<Longrightarrow> reachable (registerAction actionId act col e)"
| r_unregister: "reachable e \<Longrightarrow> reachable (unregisterAction actionId e)"
| r_gain: "reachable e \<Longrightarrow> reachable (adjustGain delta e)"
| r_theme: "reachable e \<Longrightarrow> reachable (nextTheme e)"
| r_tick: "reachable e \<Longrightarrow> reachable (fst (tick rawBins e))"



section \<open>wasapi-source.ts: the frequency mapper\<close>

definition FFT_SIZE :: nat where "FFT_SIZE = 2048"
definition HALF_FFT :: nat where "HALF_FFT = FFT_SIZE div 2"
definition HOP_SIZE :: nat where "HOP_SIZE = FFT_SIZE div 2"
definition MAX_FREQ_HZ :: real where "MAX_FREQ_HZ = 5000"
definition BASS_FREQS :: "real list" where "BASS_FREQS = [30, 45, 65, 90, 125, 175, 250, 350, 500]"
definition BASS_CROSSOVER_HZ :: real where "BASS_CROSSOVER_HZ = 550"

definition probeSearch :: "real \<Rightarrow> nat \<times> nat" where
  \<comment> \<open>the loop over the probes: the indices \<open>(below, above)\<close> it ends with\<close>
  "probeSearch freqCenter =
     foldl (\<lambda>(below, above) g.
              (if BASS_FREQS ! g \<le> freqCenter then g else below,
               if BASS_FREQS ! g \<ge> freqCenter \<and> above = length BASS_FREQS - 1 then g else above))
           (0, length BASS_FREQS - 1) [0..<length BASS_FREQS]"

definition bassRawMag :: "real list \<Rightarrow> real \<Rightarrow> real" where
  "bassRawMag bassMagnitudes freqCenter =
     (let (below, above) = probeSearch freqCenter in
      if below = above then bassMagnitudes ! below
      else (let range = BASS_FREQS ! above - BASS_FREQS ! below;
                t = (if range > 0 then (freqCenter - BASS_FREQS ! below) / range else 0)
            in bassMagnitudes ! below * (1 - t) + bassMagnitudes ! above * t))"

definition fftRawMag :: "real list \<Rightarrow> real \<Rightarrow> real \<Rightarrow> real \<Rightarrow> real" where
  "fftRawMag magnitudes hzPerBin freqLo freqHi =
     (let binLo = freqLo / hzPerBin;
          binHi = freqHi / hzPerBin;
          maxBin = min (int HALF_FFT) \<lceil>MAX_FREQ_HZ / hzPerBin\<rceil>;
          bStart = \<lfloor>binLo\<rfloor>;
          bEnd = min \<lceil>binHi\<rceil> maxBin;
          (sum, weight) = foldl (\<lambda>(sum, weight) b.
              (let overlapLo = max (real_of_int b) binLo;
                   overlapHi = min (real_of_int b + 1) binHi;
                   w = max 0 (overlapHi - overlapLo)
               in if w > 0 \<and> b \<ge> 0 \<and> b < int HALF_FFT
                  then (sum + magnitudes ! nat b * w, weight + w) else (sum, weight)))
            (0, 0) [bStart..bEnd - 1]
      in if weight > 0 then sum / weight else 0)"

definition binRawMag :: "real list \<Rightarrow> real list \<Rightarrow> real \<Rightarrow> real \<Rightarrow> real \<Rightarrow> real" where
  \<comment> \<open>\<open>rawMag\<close> of one output bin, from the edges of its frequency window\<close>
  "binRawMag bassMagnitudes magnitudes hzPerBin freqLo freqHi =
     (let freqCenter = (freqLo + freqHi) * 0.5 in
      if freqCenter < BASS_CROSSOVER_HZ then bassRawMag bassMagnitudes freqCenter
      else fftRawMag magnitudes hzPerBin freqLo freqHi)"

definition getFrequencyData :: "bool \<Rightarrow> real \<Rightarrow> real list \<Rightarrow> real list \<Rightarrow> nat \<Rightarrow> real list" where
  \<comment> \<open>\<open>running\<close>, the sample rate and the two magnitude tables are the state it reads\<close>
  "getFrequencyData running sampleRate bassMagnitudes magnitudes numBins =
     (if \<not> running then replicate numBins 0
      else (let hzPerBin = sampleRate / real FFT_SIZE;
                logMin = ln 20;
                logMax = ln MAX_FREQ_HZ
            in map (\<lambda>i.
                 (let freqLo = exp (logMin + (logMax - logMin) * (real i / real numBins));
                      freqHi = exp (logMin + (logMax - logMin) * ((real i + 1) / real numBins));
                      freqCenter = (freqLo + freqHi) * 0.5;
                      rawMag = binRawMag bassMagnitudes magnitudes hzPerBin freqLo freqHi;
                      logFreq = log 2 (freqCenter / 20);
                      freqGain = 2 * (2 powr (logFreq * 0.38))
                  in rawMag * freqGain)) [0..<numBins]))"




section \<open>wasapi-source.ts: the sample ring\<close>

datatype js_error = RangeError

definition sampleAt :: "8 word list \<Rightarrow> nat \<Rightarrow> 32 word" where
  \<comment> \<open>the bit pattern of the little-endian float at byte offset \<open>off\<close>\<close>
  "sampleAt buf off = word_rcat [buf ! (off + 3), buf ! (off + 2), buf ! (off + 1), buf ! off]"

definition readFloatLE :: "8 word list \<Rightarrow> nat \<Rightarrow> js_error + 32 word" where
  \<comment> \<open>\<^verbatim>\<open>Buffer.readFloatLE\<close> throws a \<^verbatim>\<open>RangeError\<close> when four bytes are not there\<close>
  "readFloatLE buf off = (if off + 4 \<le> length buf then Inr (sampleAt buf off) else Inl RangeError)"

text \<open>
  The part of the source's state that the ingest touches. A \<^verbatim>\<open>Float32Array\<close> element is kept
  as the 32 bits that were read. The analysis run by \<open>computeFFT\<close> (window, FFT, Goertzel
  filters) is floating-point code outside this model: what is kept of each run is the ring
  position it starts reading at, appended to \<open>fftStarts\<close>.
\<close>

record WasapiAudioSource =
  sampleBuffer :: "32 word list"
  writePos :: nat
  hopCount :: nat
  fftStarts :: "nat list"

definition newWasapiAudioSource :: WasapiAudioSource where
  "newWasapiAudioSource = \<lparr> sampleBuffer = replicate FFT_SIZE 0, writePos = 0, hopCount = 0, fftStarts = [] \<rparr>"

definition computeFFT :: "WasapiAudioSource \<Rightarrow> WasapiAudioSource" where
  "computeFFT s = (let start = writePos s in s\<lparr> fftStarts := fftStarts s @ [start] \<rparr>)"

definition pushSample :: "32 word \<Rightarrow> WasapiAudioSource \<Rightarrow> WasapiAudioSource" where
  \<comment> \<open>the body of the loop of \<open>processAudioChunk\<close>\<close>
  "pushSample v s =
     (let s1 = s\<lparr> sampleBuffer := (sampleBuffer s)[writePos s := v] \<rparr>;
          s2 = s1\<lparr> writePos := (writePos s1 + 1) mod FFT_SIZE \<rparr>;
          s3 = s2\<lparr> hopCount := hopCount s2 + 1 \<rparr>
      in if hopCount s3 \<ge> HOP_SIZE then computeFFT (s3\<lparr> hopCount := 0 \<rparr>) else s3)"

function chunkLoop :: "8 word list \<Rightarrow> nat \<Rightarrow> nat \<Rightarrow> WasapiAudioSource \<Rightarrow> js_error + WasapiAudioSource" where
  "chunkLoop chunk floatCount i s =
     (if i < floatCount
      then (case readFloatLE chunk (i * 4) of
              Inl err \<Rightarrow> Inl err
            | Inr v \<Rightarrow> chunkLoop chunk floatCount (i + 1) (pushSample v s))
      else Inr s)"
  by pat_completeness auto
termination
  by (relation "measure (\<lambda>(chunk, floatCount, i, s). floatCount - i)") auto

definition processAudioChunk :: "8 word list \<Rightarrow> WasapiAudioSource \<Rightarrow> js_error + WasapiAudioSource" where
  "processAudioChunk chunk s = (let floatCount = length chunk div 4 in chunkLoop chunk floatCount 0 s)"

definition pushAll :: "8 word list \<Rightarrow> nat \<Rightarrow> WasapiAudioSource \<Rightarrow> WasapiAudioSource" where
  \<comment> \<open>the first \<open>n\<close> samples of a chunk pushed in order\<close>
  "pushAll chunk n s = foldl (\<lambda>s k. pushSample (sampleAt chunk (k * 4)) s) s [0..<n]"

section \<open>visualizer-renderer.ts\<close>

definition STRIP_WIDTH :: nat where "STRIP_WIDTH = 200"
definition STRIP_HEIGHT :: nat where "STRIP_HEIGHT = 100"
definition MAX_POINTS :: nat where "MAX_POINTS = 130"

record ColorStop =
  s_pos :: real
  s_r :: real
  s_g :: real
  s_b :: real

definition mkStop :: "real \<Rightarrow> real \<Rightarrow> real \<Rightarrow> real \<Rightarrow> ColorStop" where
  "mkStop p cr cg cb = \<lparr> s_pos = p, s_r = cr, s_g = cg, s_b = cb \<rparr>"

definition THEMES :: "(string \<times> ColorStop list) list" where
  "THEMES =
    [(''neon'', [mkStop 0.0 0 255 220, mkStop 0.35 0 120 255, mkStop 0.65 140 0 255, mkStop 1.0 255 0 140]),
     (''classic'', [mkStop 0.0 0 200 0, mkStop 0.5 220 220 0, mkStop 0.8 255 120 0, mkStop 1.0 255 20 0]),
     (''ocean'', [mkStop 0.0 0 40 120, mkStop 0.4 0 120 255, mkStop 0.75 0 210 255, mkStop 1.0 180 255 255]),
     (''fire'', [mkStop 0.0 120 0 0, mkStop 0.35 220 40 0, mkStop 0.65 255 160 0, mkStop 1.0 255 255 80]),
     (''purple'', [mkStop 0.0 40 0 80, mkStop 0.35 100 0 200, mkStop 0.65 200 50 255, mkStop 1.0 255 150 255])]"

definition themeStops :: "string \<Rightarrow> ColorStop list" where
  \<comment> \<open>\<^verbatim>\<open>THEMES[themeName] ?? THEMES["neon"]\<close>\<close>
  "themeStops themeName = (case map_of THEMES themeName of Some stops \<Rightarrow> stops | None \<Rightarrow> the (map_of THEMES ''neon''))"

definition clamp01 :: "real \<Rightarrow> real" where
  \<comment> \<open>\<^verbatim>\<open>Math.max(0, Math.min(1, v))\<close>\<close>
  "clamp01 v = max 0 (min 1 v)"

definition mathRound :: "real \<Rightarrow> int" where
  \<comment> \<open>\<^verbatim>\<open>Math.round\<close>: the nearest integer, halves upwards\<close>
  "mathRound v = \<lfloor>v + 0.5\<rfloor>"

definition toInt32 :: "jsnum \<Rightarrow> int" where
  \<comment> \<open>\<^verbatim>\<open>v | 0\<close>: \<^verbatim>\<open>NaN\<close> gives 0, otherwise truncation towards zero, wrapped into the signed 32-bit range\<close>
  "toInt32 v =
     (case v of None \<Rightarrow> 0
      | Some x \<Rightarrow> (let t = (if x \<ge> 0 then \<lfloor>x\<rfloor> else \<lceil>x\<rceil>); m = t mod 2 ^ 32
                   in if m \<ge> 2 ^ 31 then m - 2 ^ 32 else m))"

definition toUint8 :: "int \<Rightarrow> nat" where
  \<comment> \<open>what a \<^verbatim>\<open>Uint8Array\<close> keeps of an integer assigned to it\<close>
  "toUint8 v = nat (v mod 256)"

definition readU8 :: "nat list \<Rightarrow> int \<Rightarrow> jsnum" where
  \<comment> \<open>\<^verbatim>\<open>arr[k]\<close> on a \<^verbatim>\<open>Uint8Array\<close>, used as a number\<close>
  "readU8 arr k = (if 0 \<le> k \<and> k < int (length arr) then Some (real (arr ! nat k)) else None)"

definition sampleGradient :: "ColorStop list \<Rightarrow> real \<Rightarrow> int list" where
  "sampleGradient stops t0 =
     (let t = max 0 (min 1 t0);
          (lower, upper) =
            (case List.find (\<lambda>i. t \<ge> s_pos (stops ! i) \<and> t \<le> s_pos (stops ! (i + 1))) [0..<length stops - 1] of
               Some i \<Rightarrow> (stops ! i, stops ! (i + 1))
             | None \<Rightarrow> (stops ! 0, stops ! (length stops - 1)));
          range = s_pos upper - s_pos lower;
          frac = (if range = 0 then 0 else (t - s_pos lower) / range)
      in [mathRound (s_r lower + (s_r upper - s_r lower) * frac),
          mathRound (s_g lower + (s_g upper - s_g lower) * frac),
          mathRound (s_b lower + (s_b upper - s_b lower) * frac)])"

definition getGradientLUT :: "string \<Rightarrow> nat list" where
  \<comment> \<open>the table built on first use for a theme name and returned from the cache afterwards\<close>
  "getGradientLUT themeName =
     concat (map (\<lambda>y. map toUint8 (sampleGradient (themeStops themeName) (real y / real (STRIP_HEIGHT - 1))))
                 [0..<STRIP_HEIGHT])"

text \<open>
  The control points. The four module-level arrays hold \<open>MAX_POINTS\<close> numbers; the lists
  below are their first \<open>nPoints\<close> entries after the writes of one call.
\<close>

definition controlX :: "nat \<Rightarrow> real list" where
  "controlX numBars =
     0 # map (\<lambda>i. ((real i + 0.5) / real numBars) * (real STRIP_WIDTH - 1)) [0..<numBars] @ [real STRIP_WIDTH - 1]"

definition controlY :: "real list \<Rightarrow> nat \<Rightarrow> real \<Rightarrow> real \<Rightarrow> real list" where
  "controlY bins numBars leftEdge rightEdge =
     clamp01 leftEdge # map (\<lambda>i. clamp01 (bins ! i)) [0..<numBars] @ [clamp01 rightEdge]"

definition slopesOf :: "real list \<Rightarrow> real list \<Rightarrow> nat \<Rightarrow> real list" where
  "slopesOf cpX cpY n = map (\<lambda>k. (cpY ! (k + 1) - cpY ! k) / (cpX ! (k + 1) - cpX ! k)) [0..<n - 1]"

definition precomputeTangents :: "real list \<Rightarrow> real list \<Rightarrow> nat \<Rightarrow> real list" where
  \<comment> \<open>the tangents written for \<open>n \<ge> 2\<close> points\<close>
  "precomputeTangents cpX cpY n =
     (let cpSlopes = slopesOf cpX cpY n in
      map (\<lambda>k. if k = n - 1 then cpSlopes ! (n - 2)
                else if k = 0 then cpSlopes ! 0
                else if cpSlopes ! (k - 1) * cpSlopes ! k \<le> 0 then 0
                else (cpSlopes ! (k - 1) + cpSlopes ! k) / 2) [0..<n])"

function segmentSearch :: "real list \<Rightarrow> real \<Rightarrow> nat \<Rightarrow> nat \<Rightarrow> nat" where
  "segmentSearch cpX x lo hi =
     (if lo < hi
      then (let mid = (lo + hi) div 2 in
            if cpX ! (mid + 1) < x then segmentSearch cpX x (mid + 1) hi else segmentSearch cpX x lo mid)
      else lo)"
  by pat_completeness auto
termination
  by (relation "measure (\<lambda>(cpX, x, lo, hi). hi - lo)") auto

definition evalCurve :: "real list \<Rightarrow> real list \<Rightarrow> real list \<Rightarrow> nat \<Rightarrow> real \<Rightarrow> real" where
  "evalCurve cpX cpY cpTangents n x =
     (if n = 0 then 0
      else if x \<le> cpX ! 0 then cpY ! 0
      else if x \<ge> cpX ! (n - 1) then cpY ! (n - 1)
      else (let i = segmentSearch cpX x 0 (n - 2);
                h = cpX ! (i + 1) - cpX ! i
            in if h = 0 then cpY ! i
               else (let t = (x - cpX ! i) / h; t2 = t * t; t3 = t2 * t
                     in (2 * t3 - 3 * t2 + 1) * cpY ! i
                        + (t3 - 2 * t2 + t) * h * cpTangents ! i
                        + (- 2 * t3 + 3 * t2) * cpY ! (i + 1)
                        + (t3 - t2) * h * cpTangents ! (i + 1))))"

definition curveAt :: "real list \<Rightarrow> nat \<Rightarrow> real \<Rightarrow> real \<Rightarrow> real \<Rightarrow> real" where
  \<comment> \<open>\<open>evalCurve(nPoints, x)\<close> on the control points that \<open>renderVisualizerFrame\<close> builds\<close>
  "curveAt bins numBars leftEdge rightEdge x =
     (let cpX = controlX numBars;
          cpY = controlY bins numBars leftEdge rightEdge;
          nPoints = numBars + 2
      in evalCurve cpX cpY (precomputeTangents cpX cpY nPoints) nPoints x)"

definition curveHeightsOf :: "real list \<Rightarrow> nat \<Rightarrow> real \<Rightarrow> real \<Rightarrow> real list" where
  "curveHeightsOf bins numBars leftEdge rightEdge =
     (let maxH = real STRIP_HEIGHT - 4 in
      map (\<lambda>x. (let amp = clamp01 (curveAt bins numBars leftEdge rightEdge (real x)) in amp * maxH)) [0..<STRIP_WIDTH])"

text \<open>
  The pixel buffer. The model keeps, for every byte, the number that the code assigns to it;
  the \<^verbatim>\<open>Uint8Array\<close> stores that number modulo 256.
\<close>

definition writePx :: "int list \<Rightarrow> int \<Rightarrow> int \<Rightarrow> int list" where
  \<comment> \<open>\<^verbatim>\<open>pixelBuffer[idx] = v\<close>; an index outside the array is ignored\<close>
  "writePx pixelBuffer idx v = (if 0 \<le> idx \<and> idx < int (length pixelBuffer) then pixelBuffer[nat idx := v] else pixelBuffer)"

definition fillChannel :: "jsnum \<Rightarrow> real \<Rightarrow> int" where
  \<comment> \<open>\<^verbatim>\<open>(c * bottomFade + 0.5) | 0\<close>\<close>
  "fillChannel c bottomFade = toInt32 (jsAdd (jsMul c bottomFade) (Some 0.5))"

definition glowChannel :: "jsnum \<Rightarrow> real \<Rightarrow> int" where
  \<comment> \<open>\<^verbatim>\<open>Math.min(255, (c * brightness + 0.5) | 0)\<close>\<close>
  "glowChannel c brightness = min 255 (toInt32 (jsAdd (jsMul c brightness) (Some 0.5)))"

definition fillPixel :: "nat list \<Rightarrow> nat \<Rightarrow> int list \<Rightarrow> int \<Rightarrow> int list" where
  \<comment> \<open>the body of the fill loop for row \<open>y\<close> of column \<open>x\<close>\<close>
  "fillPixel gradientLUT x pixelBuffer y =
     (let distFromBottom = int STRIP_HEIGHT - 1 - y;
          lutIdx = toInt32 (Some ((real_of_int distFromBottom * 99) / 99 + 0.5)) * 3;
          cr = readU8 gradientLUT lutIdx;
          cg = readU8 gradientLUT (lutIdx + 1);
          cb = readU8 gradientLUT (lutIdx + 2);
          bottomFade = (if distFromBottom < 3 then (real_of_int distFromBottom + 1) * 0.25 else 1.0);
          idx = (y * int STRIP_WIDTH + int x) * 4;
          p0 = writePx pixelBuffer idx (fillChannel cr bottomFade);
          p1 = writePx p0 (idx + 1) (fillChannel cg bottomFade);
          p2 = writePx p1 (idx + 2) (fillChannel cb bottomFade)
      in writePx p2 (idx + 3) 255)"

definition glowPixel :: "jsnum \<Rightarrow> jsnum \<Rightarrow> jsnum \<Rightarrow> int \<Rightarrow> nat \<Rightarrow> int list \<Rightarrow> nat \<Rightarrow> int list" where
  \<comment> \<open>the body of the glow loop for \<open>g_row\<close>\<close>
  "glowPixel gr gg gb topY x pixelBuffer g_row =
     (let gy = topY + int g_row in
      if gy < 0 \<or> gy \<ge> int STRIP_HEIGHT then pixelBuffer
      else (let brightness = (if g_row = 0 then 1.6 else if g_row = 1 then 1.3 else 1.1);
                idx = (gy * int STRIP_WIDTH + int x) * 4;
                p0 = writePx pixelBuffer idx (glowChannel gr brightness);
                p1 = writePx p0 (idx + 1) (glowChannel gg brightness);
                p2 = writePx p1 (idx + 2) (glowChannel gb brightness)
            in writePx p2 (idx + 3) 255))"

definition renderColumn :: "nat list \<Rightarrow> real list \<Rightarrow> int list \<Rightarrow> nat \<Rightarrow> int list" where
  \<comment> \<open>the body of the rendering loop for column \<open>x\<close>\<close>
  "renderColumn gradientLUT curveHeights pixelBuffer x =
     (let curveH = curveHeights ! x;
          curvePixelH = toInt32 (Some (curveH + 0.5))
      in if curvePixelH \<le> 0 then pixelBuffer
         else (let topY = int STRIP_HEIGHT - curvePixelH;
                   filled = foldl (fillPixel gradientLUT x) pixelBuffer (rev [max topY 0 .. int STRIP_HEIGHT - 1]);
                   normH = toInt32 (Some ((curveH / 99) * 99 + 0.5));
                   glowLutIdx = normH * 3;
                   gr = readU8 gradientLUT glowLutIdx;
                   gg = readU8 gradientLUT (glowLutIdx + 1);
                   gb = readU8 gradientLUT (glowLutIdx + 2)
               in foldl (glowPixel gr gg gb topY x) filled [0..<3]))"

definition renderPixels :: "real list \<Rightarrow> string \<Rightarrow> nat \<Rightarrow> real \<Rightarrow> real \<Rightarrow> int list" where
  \<comment> \<open>\<open>renderVisualizerFrame\<close> up to the pixel buffer that it hands to the encoder\<close>
  "renderPixels bins themeName numBars leftEdge rightEdge =
     (let gradientLUT = getGradientLUT themeName;
          cleared = replicate (STRIP_WIDTH * STRIP_HEIGHT * 4) 0;
          curveHeights = curveHeightsOf bins numBars leftEdge rightEdge
      in foldl (renderColumn gradientLUT curveHeights) cleared [0..<STRIP_WIDTH])"

definition isByte :: "int \<Rightarrow> bool" where
  "isByte v \<longleftrightarrow> 0 \<le> v \<and> v \<le> 255"

definition lutByte :: "jsnum \<Rightarrow> bool" where
  \<comment> \<open>what a read of the gradient table can give: a byte, or nothing outside the table\<close>
  "lutByte c \<longleftrightarrow> (case c of None \<Rightarrow> True | Some v \<Rightarrow> 0 \<le> v \<and> v \<le> 255)"

section \<open>png-encoder.ts\<close>

type_synonym byte = "8 word"

definition crcTableEntry :: "32 word \<Rightarrow> 32 word" where
  \<comment> \<open>the eight rounds that fill one entry of the table\<close>
  "crcTableEntry n = ((\<lambda>c. if c AND 1 \<noteq> 0 then 0xedb88320 XOR drop_bit 1 c else drop_bit 1 c) ^^ 8) n"

definition crcTable :: "32 word list" where
  "crcTable = map (\<lambda>n. crcTableEntry (of_nat n)) [0..<256]"

definition crc32 :: "byte list \<Rightarrow> nat \<Rightarrow> nat \<Rightarrow> 32 word" where
  "crc32 buf offset len =
     foldl (\<lambda>crc i. crcTable ! unat ((crc XOR ucast (buf ! i)) AND 0xff) XOR drop_bit 8 crc)
           0xffffffff [offset..<offset + len] XOR 0xffffffff"

definition WIDTH :: nat where "WIDTH = 200"
definition HEIGHT :: nat where "HEIGHT = 100"
definition ROW_SIZE :: nat where "ROW_SIZE = WIDTH * 4"
definition RAW_SIZE :: nat where "RAW_SIZE = (ROW_SIZE + 1) * HEIGHT"
definition PNG_HEADER_SIZE :: nat where "PNG_HEADER_SIZE = 8 + 25"
definition MAX_COMPRESSED :: nat where "MAX_COMPRESSED = RAW_SIZE + 1024"
definition PNG_MAX :: nat where "PNG_MAX = PNG_HEADER_SIZE + (12 + MAX_COMPRESSED) + 12"
definition IHDR_OFF :: nat where "IHDR_OFF = 8"
definition IDAT_OFF :: nat where "IDAT_OFF = IHDR_OFF + 25"

definition u32be :: "32 word \<Rightarrow> byte list" where
  \<comment> \<open>the four bytes that \<^verbatim>\<open>writeUInt32BE\<close> stores\<close>
  "u32be v = [ucast (drop_bit 24 v), ucast (drop_bit 16 v), ucast (drop_bit 8 v), ucast v]"

definition asciiBytes :: "string \<Rightarrow> byte list" where
  "asciiBytes s = map (\<lambda>c. of_nat (of_char c)) s"

definition PNG_SIGNATURE :: "byte list" where
  "PNG_SIGNATURE = [137, 80, 78, 71, 13, 10, 26, 10]"

definition IHDR_DATA :: "byte list" where
  "IHDR_DATA = u32be (of_nat WIDTH) @ u32be (of_nat HEIGHT) @ [8, 6, 0, 0, 0]"

definition pngHeader :: "byte list" where
  \<comment> \<open>the first 33 bytes of \<open>pngOut\<close>, written once when the module loads\<close>
  "pngHeader =
     (let p = PNG_SIGNATURE @ u32be 13 @ asciiBytes ''IHDR'' @ IHDR_DATA
      in p @ u32be (crc32 p (IHDR_OFF + 4) 17))"

definition newRawBuf :: "byte list" where
  "newRawBuf = replicate RAW_SIZE 0"

definition readU8Byte :: "byte list \<Rightarrow> nat \<Rightarrow> byte" where
  \<comment> \<open>\<^verbatim>\<open>rgba[k]\<close> as stored into a \<^verbatim>\<open>Buffer\<close>: \<^verbatim>\<open>undefined\<close> is stored as 0\<close>
  "readU8Byte rgba k = (if k < length rgba then rgba ! k else 0)"

definition copyRow :: "byte list \<Rightarrow> byte list \<Rightarrow> nat \<Rightarrow> byte list" where
  \<comment> \<open>the body of the loop over the rows; a write outside \<open>rawBuf\<close> is ignored\<close>
  "copyRow rgba rawBuf y =
     (let rawOff = y * (ROW_SIZE + 1) + 1; srcOff = y * ROW_SIZE
      in foldl (\<lambda>buf i. buf[rawOff + i := readU8Byte rgba (srcOff + i)]) rawBuf [0..<ROW_SIZE])"

definition copyRows :: "byte list \<Rightarrow> nat \<Rightarrow> byte list \<Rightarrow> byte list" where
  "copyRows rgba height rawBuf = foldl (copyRow rgba) rawBuf [0..<height]"

definition B64_CHARS :: string where
  "B64_CHARS = ''ABCDEFGHIJKLMNOPQRSTUVWXYZabcdefghijklmnopqrstuvwxyz0123456789+/''"

definition B64_TABLE :: "32 word \<Rightarrow> char" where
  \<comment> \<open>\<^verbatim>\<open>B64_TABLE[k]\<close>, as the character whose code the table holds\<close>
  "B64_TABLE k = B64_CHARS ! unat k"

definition DATA_URI_PREFIX :: string where
  "DATA_URI_PREFIX = ''data:image/png;base64,''"

function b64Loop :: "byte list \<Rightarrow> nat \<Rightarrow> nat \<Rightarrow> string \<Rightarrow> string \<times> nat" where
  \<comment> \<open>the main loop: the characters written so far and the index \<open>si\<close> it stops at\<close>
  "b64Loop pngOut end3 si out =
     (if si < end3
      then (let b0 = ucast (pngOut ! si) :: 32 word;
                b1 = ucast (pngOut ! (si + 1)) :: 32 word;
                b2 = ucast (pngOut ! (si + 2)) :: 32 word
            in b64Loop pngOut end3 (si + 3)
                 (out @ [B64_TABLE (drop_bit 2 b0 AND 0x3f),
                         B64_TABLE ((push_bit 4 b0 OR drop_bit 4 b1) AND 0x3f),
                         B64_TABLE ((push_bit 2 b1 OR drop_bit 6 b2) AND 0x3f),
                         B64_TABLE (b2 AND 0x3f)]))
      else (out, si))"
  by pat_completeness auto
termination
  by (relation "measure (\<lambda>(pngOut, end3, si, out). end3 - si)") auto

definition b64Tail :: "byte list \<Rightarrow> nat \<Rightarrow> nat \<Rightarrow> string" where
  "b64Tail pngOut si rem =
     (if rem = 1
      then (let b0 = ucast (pngOut ! si) :: 32 word
            in [B64_TABLE (drop_bit 2 b0 AND 0x3f), B64_TABLE (push_bit 4 b0 AND 0x3f), CHR 0x3d, CHR 0x3d])
      else if rem = 2
      then (let b0 = ucast (pngOut ! si) :: 32 word; b1 = ucast (pngOut ! (si + 1)) :: 32 word
            in [B64_TABLE (drop_bit 2 b0 AND 0x3f),
                B64_TABLE ((push_bit 4 b0 OR drop_bit 4 b1) AND 0x3f),
                B64_TABLE (push_bit 2 b1 AND 0x3f), CHR 0x3d])
      else [])"

definition base64Into :: "byte list \<Rightarrow> nat \<Rightarrow> string" where
  \<comment> \<open>step 5: what is written behind the prefix in \<open>dataUriBuf\<close>\<close>
  "base64Into pngOut pngLen =
     (let end3 = pngLen - pngLen mod 3;
          (out, si) = b64Loop pngOut end3 0 [];
          rem = pngLen mod 3
      in out @ b64Tail pngOut si rem)"

text \<open>
  \<open>encodePNGToDataURI\<close>. \<open>deflateSync\<close> is zlib's, taken as a parameter. Of the three reused
  buffers, \<open>rawBuf\<close> is passed in and returned, since a call reads what earlier calls left in it;
  \<open>pngOut\<close> and \<open>dataUriBuf\<close> are the bytes that this call writes before it reads them. A
  compressed length beyond \<open>MAX_COMPRESSED\<close> makes a write fall outside \<open>pngOut\<close>, which
  \<^verbatim>\<open>writeUInt32BE\<close> answers with a \<^verbatim>\<open>RangeError\<close>.
\<close>

definition encodePNGToDataURI ::
    "(byte list \<Rightarrow> byte list) \<Rightarrow> nat \<Rightarrow> nat \<Rightarrow> byte list \<Rightarrow> byte list \<Rightarrow> js_error + (string \<times> byte list)" where
  "encodePNGToDataURI deflateSync width height rgba rawBuf0 =
     (let rawBuf = copyRows rgba height rawBuf0;
          compressed = deflateSync rawBuf;
          compLen = length compressed
      in if compLen > MAX_COMPRESSED then Inl RangeError
         else (let p0 = pngHeader @ u32be (of_nat compLen) @ asciiBytes ''IDAT'' @ compressed;
                   crcOff = IDAT_OFF + 8 + compLen;
                   p1 = p0 @ u32be (crc32 p0 (IDAT_OFF + 4) (4 + compLen));
                   iendOff = crcOff + 4;
                   p2 = p1 @ u32be 0 @ asciiBytes ''IEND'';
                   pngOut = p2 @ u32be (crc32 p2 (iendOff + 4) 4);
                   pngLen = iendOff + 12
               in Inr (DATA_URI_PREFIX @ base64Into pngOut pngLen, rawBuf)))"

definition pngBytes :: "(byte list \<Rightarrow> byte list) \<Rightarrow> byte list \<Rightarrow> byte list" where
  \<comment> \<open>the first \<open>pngLen\<close> bytes of \<open>pngOut\<close> for a given raw buffer\<close>
  "pngBytes deflateSync rawBuf =
     (let compressed = deflateSync rawBuf;
          compLen = length compressed;
          p0 = pngHeader @ u32be (of_nat compLen) @ asciiBytes ''IDAT'' @ compressed;
          p1 = p0 @ u32be (crc32 p0 (IDAT_OFF + 4) (4 + compLen));
          p2 = p1 @ u32be 0 @ asciiBytes ''IEND''
      in p2 @ u32be (crc32 p2 (IDAT_OFF + 8 + compLen + 4 + 4) 4))"

section \<open>Base64 and PNG as the formats define them\<close>

text \<open>
  The reference the encoder is compared with. Base64 (RFC 4648): three bytes form a 24-bit
  group that is read as four 6-bit values; a final single byte is padded with four zero bits
  to two 6-bit values and \<open>==\<close>; a final pair of bytes with two zero bits to three 6-bit values
  and \<open>=\<close>. Each 6-bit value selects a character of the alphabet.
\<close>

definition b64Char :: "6 word \<Rightarrow> char" where
  "b64Char s = B64_CHARS ! unat s"

definition group24 :: "byte \<Rightarrow> byte \<Rightarrow> byte \<Rightarrow> 24 word" where
  "group24 b0 b1 b2 = word_cat b0 (word_cat b1 b2 :: 16 word)"

definition group18 :: "byte \<Rightarrow> byte \<Rightarrow> 18 word" where
  "group18 b0 b1 = word_cat (word_cat b0 b1 :: 16 word) (0 :: 2 word)"

definition group12 :: "byte \<Rightarrow> 12 word" where
  "group12 b0 = word_cat b0 (0 :: 4 word)"

fun base64Std :: "byte list \<Rightarrow> string" where
  "base64Std (b0 # b1 # b2 # rest) =
     [b64Char (ucast (drop_bit 18 (group24 b0 b1 b2))), b64Char (ucast (drop_bit 12 (group24 b0 b1 b2))),
      b64Char (ucast (drop_bit 6 (group24 b0 b1 b2))), b64Char (ucast (group24 b0 b1 b2))] @ base64Std rest"
| "base64Std [b0, b1] =
     [b64Char (ucast (drop_bit 12 (group18 b0 b1))), b64Char (ucast (drop_bit 6 (group18 b0 b1))),
      b64Char (ucast (group18 b0 b1)), CHR ''='']"
| "base64Std [b0] =
     [b64Char (ucast (drop_bit 6 (group12 b0))), b64Char (ucast (group12 b0)), CHR ''='', CHR ''='']"
| "base64Std [] = []"

definition b64Value :: "char \<Rightarrow> 6 word option" where
  "b64Value c = map_option of_nat (map_of (zip B64_CHARS [0..<64]) c)"

definition decodeQuad :: "char \<Rightarrow> char \<Rightarrow> char \<Rightarrow> char \<Rightarrow> byte list option" where
  "decodeQuad c0 c1 c2 c3 =
     (case (b64Value c0, b64Value c1) of
        (Some s0, Some s1) \<Rightarrow>
          (if c2 = CHR ''='' \<and> c3 = CHR ''=''
           then Some [ucast (drop_bit 4 (word_cat s0 s1 :: 12 word))]
           else (case b64Value c2 of
                   None \<Rightarrow> None
                 | Some s2 \<Rightarrow>
                     (if c3 = CHR ''=''
                      then (let v = (word_cat s0 (word_cat s1 s2 :: 12 word) :: 18 word)
                            in Some [ucast (drop_bit 10 v), ucast (drop_bit 2 v)])
                      else (case b64Value c3 of
                              None \<Rightarrow> None
                            | Some s3 \<Rightarrow>
                                (let v = (word_cat s0 (word_cat s1 (word_cat s2 s3 :: 12 word) :: 18 word) :: 24 word)
                                 in Some [ucast (drop_bit 16 v), ucast (drop_bit 8 v), ucast v])))))
      | _ \<Rightarrow> None)"

fun base64Decode :: "string \<Rightarrow> byte list option" where
  "base64Decode (c0 # c1 # c2 # c3 # rest) =
     (case decodeQuad c0 c1 c2 c3 of
        None \<Rightarrow> None
      | Some bs \<Rightarrow> (case base64Decode rest of None \<Rightarrow> None | Some others \<Rightarrow> Some (bs @ others)))"
| "base64Decode [] = Some []"
| "base64Decode _ = None"

text \<open>
  PNG: after the signature, a sequence of chunks, each a big-endian length, a four-byte type,
  the data and the CRC-32 of type and data.
\<close>

definition be32 :: "byte list \<Rightarrow> nat" where
  "be32 bs = unat (word_cat (bs ! 0) (word_cat (bs ! 1) (word_cat (bs ! 2) (bs ! 3) :: 16 word) :: 24 word) :: 32 word)"

definition pngChunk :: "string \<Rightarrow> byte list \<Rightarrow> byte list" where
  "pngChunk ty dat =
     u32be (of_nat (length dat)) @ asciiBytes ty @ dat @ u32be (crc32 (asciiBytes ty @ dat) 0 (4 + length dat))"

function parseChunks :: "byte list \<Rightarrow> (byte list \<times> byte list) list option" where
  "parseChunks bs =
     (if bs = [] then Some []
      else if length bs < 12 then None
      else (let len = be32 (take 4 bs); ty = take 4 (drop 4 bs); dat = take len (drop 8 bs) in
            if length bs < 12 + len then None
            else if u32be (crc32 (ty @ dat) 0 (4 + len)) \<noteq> take 4 (drop (8 + len) bs) then None
            else (case parseChunks (drop (12 + len) bs) of
                    None \<Rightarrow> None
                  | Some cs \<Rightarrow> Some ((ty, dat) # cs))))"
  by pat_completeness auto
termination
  by (relation "measure length") auto

definition idatPayload :: "byte list \<Rightarrow> byte list option" where
  \<comment> \<open>the concatenated data of the IDAT chunks of a PNG byte sequence\<close>
  "idatPayload png =
     (if take 8 png \<noteq> PNG_SIGNATURE then None
      else (case parseChunks (drop 8 png) of
              None \<Rightarrow> None
            | Some cs \<Rightarrow> Some (concat (map snd (filter (\<lambda>c. fst c = asciiBytes ''IDAT'') cs)))))"

definition rowOf :: "nat \<Rightarrow> byte list \<Rightarrow> nat \<Rightarrow> byte list" where
  \<comment> \<open>row \<open>y\<close> of a buffer whose rows are \<open>n\<close> bytes long\<close>
  "rowOf n buf y = take n (drop (y * n) buf)"

definition renderVisualizerFrame ::
    "(byte list \<Rightarrow> byte list) \<Rightarrow> real list \<Rightarrow> string \<Rightarrow> nat \<Rightarrow> real \<Rightarrow> real \<Rightarrow> byte list \<Rightarrow> js_error + (string \<times> byte list)" where
  \<comment> \<open>the whole call: the pixels, as the bytes the \<^verbatim>\<open>Uint8Array\<close> holds, go to the encoder\<close>
  "renderVisualizerFrame deflateSync bins themeName numBars leftEdge rightEdge rawBuf0 =
     encodePNGToDataURI deflateSync STRIP_WIDTH STRIP_HEIGHT
       (map (\<lambda>v. of_nat (toUint8 v)) (renderPixels bins themeName numBars leftEdge rightEdge)) rawBuf0"

section \<open>Gain and theme\<close>

lemma adjustGain_range: "0.2 \<le> gain (adjustGain delta e) \<and> gain (adjustGain delta e) \<le> 3.0"
  by (simp add: adjustGain_def)

lemma adjustGain_fold_range:
  "0.2 \<le> gain e \<and> gain e \<le> 3.0 \<Longrightarrow> 0.2 \<le> gain (foldl (\<lambda>s d. adjustGain d s) e ds) \<and> gain (foldl (\<lambda>s d. adjustGain d s) e ds) \<le> 3.0"
proof (induction ds arbitrary: e)
  case Nil
  then show ?case by simp
next
  case (Cons d ds)
  show ?case using Cons.IH [OF adjustGain_range [of d e]] by simp
qed

text \<open>
  C8. Starting from a gain in \<open>[0.2, 3.0]\<close>, one \<open>adjustGain\<close> with any delta leaves the gain in
  \<open>[0.2, 3.0]\<close>, and so does any sequence of \<open>adjustGain\<close> calls.
\<close>

theorem adjustGain_clamped:
  assumes "0.2 \<le> gain e" and "gain e \<le> 3.0"
  shows "0.2 \<le> gain (adjustGain delta e) \<and> gain (adjustGain delta e) \<le> 3.0
       \<and> 0.2 \<le> gain (foldl (\<lambda>s d. adjustGain d s) e deltas)
       \<and> gain (foldl (\<lambda>s d. adjustGain d s) e deltas) \<le> 3.0"
  using adjustGain_range [of delta e] adjustGain_fold_range [of e deltas] assms by simp

theorem adjustGain_clamped_witness:
  "0.2 \<le> gain (newAudioEngine :: unit AudioEngine) \<and> gain (newAudioEngine :: unit AudioEngine) \<le> 3.0
   \<and> gain (adjustGain 100 (newAudioEngine :: unit AudioEngine)) = 3.0
   \<and> gain (foldl (\<lambda>s d. adjustGain d s) (newAudioEngine :: unit AudioEngine) [0.05, -7, 0.05]) = 0.25"
  using adjustGain_clamped [of "newAudioEngine :: unit AudioEngine" 100 "[0.05, -7, 0.05]"]
  by (simp add: newAudioEngine_def adjustGain_def)

lemma nextTheme_funpow:
  "(nextTheme ^^ n) e = (if n = 0 then e else e\<lparr> themeIndex := (themeIndex e + n) mod length THEME_NAMES \<rparr>)"
proof (induction n)
  case 0
  then show ?case by simp
next
  case (Suc n)
  then show ?case by (cases "n = 0") (simp_all add: nextTheme_def mod_Suc_eq)
qed

lemma THEME_NAMES_distinct: "distinct THEME_NAMES \<and> length THEME_NAMES = 5"
  by (simp add: THEME_NAMES_def)

text \<open>
  C9. \<open>nextTheme\<close> moves the theme index one step forward modulo the number of themes, so
  the index stays inside the list; from an index inside the list (the constructor's 0 is one),
  the current theme after any number of calls is the entry of
  \<open>THEME_NAMES\<close> that many places further on (wrapping), hence a member of the list, and as
  many calls as there are themes restore the engine's state.
\<close>

theorem nextTheme_wraps:
  assumes "themeIndex e < length THEME_NAMES"
  shows "themeIndex (nextTheme e) = (themeIndex e + 1) mod length THEME_NAMES
       \<and> themeIndex (nextTheme e) < length THEME_NAMES
       \<and> currentTheme ((nextTheme ^^ n) e) = THEME_NAMES ! ((themeIndex e + n) mod length THEME_NAMES)
       \<and> currentTheme ((nextTheme ^^ n) e) \<in> set THEME_NAMES
       \<and> (nextTheme ^^ length THEME_NAMES) e = e"
proof -
  have len: "length THEME_NAMES = 5" by (simp add: THEME_NAMES_def)
  have a: "themeIndex (nextTheme e) = (themeIndex e + 1) mod length THEME_NAMES"
    by (simp add: nextTheme_def)
  have idx: "themeIndex ((nextTheme ^^ n) e) = (themeIndex e + n) mod length THEME_NAMES"
    using assms by (simp add: nextTheme_funpow)
  have lt: "(themeIndex e + n) mod length THEME_NAMES < length THEME_NAMES"
    by (simp add: len)
  have b: "currentTheme ((nextTheme ^^ n) e) = THEME_NAMES ! ((themeIndex e + n) mod length THEME_NAMES)"
    using lt by (simp add: currentTheme_def idx)
  have c: "currentTheme ((nextTheme ^^ n) e) \<in> set THEME_NAMES"
    unfolding b using lt by (rule nth_mem)
  have d: "(nextTheme ^^ length THEME_NAMES) e = e"
    using assms by (simp add: nextTheme_funpow len)
  have a': "themeIndex (nextTheme e) < length THEME_NAMES"
    unfolding a by (simp add: len)
  from a a' b c d show ?thesis by blast
qed

theorem nextTheme_wraps_witness:
  "themeIndex (newAudioEngine :: unit AudioEngine) < length THEME_NAMES
   \<and> currentTheme (newAudioEngine :: unit AudioEngine) = ''neon''
   \<and> currentTheme ((nextTheme ^^ 4) (newAudioEngine :: unit AudioEngine)) = ''purple''
   \<and> currentTheme ((nextTheme ^^ 5) (newAudioEngine :: unit AudioEngine)) = ''neon''"
proof -
  have h: "themeIndex (newAudioEngine :: unit AudioEngine) < length THEME_NAMES"
    by (simp add: newAudioEngine_def THEME_NAMES_def)
  have len: "length THEME_NAMES = 5" by (simp add: THEME_NAMES_def)
  from nextTheme_wraps [OF h, of 4] nextTheme_wraps [OF h, of 5] nextTheme_wraps [OF h, of 0]
  show ?thesis using h
    by (simp add: len) (simp add: newAudioEngine_def THEME_NAMES_def)
qed

section \<open>The float32 store\<close>

lemma toFloat32_one: "toFloat32 1 = 1"
  by code_simp

lemma roundTiesEven_nonneg: "0 \<le> v \<Longrightarrow> 0 \<le> roundTiesEven v"
  by (auto simp add: roundTiesEven_def Let_def)

lemma roundTiesEven_le: "v \<le> real_of_int m \<Longrightarrow> roundTiesEven v \<le> m"
  unfolding roundTiesEven_def Let_def by (auto simp add: floor_le_iff)

lemma expDown_bound: "a < 2 powi (e + 1) \<Longrightarrow> a < 2 powi (expDown a n e + 1) \<and> expDown a n e \<le> e"
proof (induction n arbitrary: e)
  case 0
  then show ?case by simp
next
  case (Suc n)
  show ?case
  proof (cases "a < 2 powi e")
    case True
    then have "a < 2 powi (e - 1 + 1)" by simp
    from Suc.IH [OF this] True show ?thesis by simp
  next
    case False
    with Suc.prems show ?thesis by simp
  qed
qed

lemma toFloat32_nonneg: "0 \<le> v \<Longrightarrow> 0 \<le> toFloat32 v"
  by (simp add: toFloat32_def Let_def sgn_real_def roundTiesEven_nonneg)

lemma toFloat32_le_1:
  assumes "v \<le> 1"
  shows "toFloat32 v \<le> 1"
proof -
  consider "v = 0" | "v < 0" | "v = 1" | "0 < v" "v < 1" using assms by linarith
  then show ?thesis
  proof cases
    case 1
    then show ?thesis by (simp add: toFloat32_def)
  next
    case 2
    have "0 \<le> real_of_int (roundTiesEven (\<bar>v\<bar> / 2 powi (float32Exponent \<bar>v\<bar> - 23))) * 2 powi (float32Exponent \<bar>v\<bar> - 23)"
      by (intro mult_nonneg_nonneg) (simp_all add: roundTiesEven_nonneg)
    with 2 show ?thesis by (simp add: toFloat32_def Let_def sgn_real_def mult.assoc)
  next
    case 3
    then show ?thesis by (simp add: toFloat32_one)
  next
    case 4
    define e where "e = expDown v 125 (- 1)"
    have "v < 2 powi (- 1 + 1)" using 4 by simp
    from expDown_bound [OF this, of 125] have lt: "v < 2 powi (e + 1)" and le: "e \<le> - 1"
      by (simp_all add: e_def)
    define ulp :: real where "ulp = 2 powi (e - 23)"
    have up: "0 < ulp" by (simp add: ulp_def)
    have split: "(2::real) powi (e + 1) = 2 ^ 24 * ulp"
      using power_int_add [of "2::real" 24 "e - 23"] by (simp add: ulp_def add.commute)
    have "v / ulp \<le> 2 ^ 24" using lt up split by (simp add: pos_divide_le_eq)
    then have "v / ulp \<le> real_of_int (2 ^ 24)" by simp
    then have "roundTiesEven (v / ulp) \<le> 2 ^ 24" by (rule roundTiesEven_le)
    then have "real_of_int (roundTiesEven (v / ulp)) \<le> real_of_int (2 ^ 24)" by (simp only: of_int_le_iff)
    then have "real_of_int (roundTiesEven (v / ulp)) \<le> 2 ^ 24" by simp
    then have "real_of_int (roundTiesEven (v / ulp)) * ulp \<le> 2 ^ 24 * ulp"
      using up by (simp add: mult_right_mono)
    also have "\<dots> = 2 powi (e + 1)" by (simp add: split)
    also have "\<dots> \<le> 2 powi 0" using le by (intro power_int_increasing) simp_all
    finally have "real_of_int (roundTiesEven (v / ulp)) * ulp \<le> 1" by simp
    with 4 show ?thesis
      by (simp add: toFloat32_def Let_def sgn_real_def float32Exponent_def e_def [symmetric] ulp_def [symmetric])
  qed
qed

section \<open>Temporal smoothing\<close>


lemma tick_smoothedBins:
  "smoothedBins (fst (tick rawBins0 e)) = temporalSmooth (processedBins rawBins0 e) (smoothedBins e)"
  by (simp add: tick_def processedBins_def Let_def)

text \<open>
  Evaluating a tick on twenty equal bands: the stages of the tick, one at a time.
\<close>

lemma processedBins_staged:
  assumes "autoBoostOf (trackPeak (autoGainPeak e) (framePeakOf rawBins0)) = autoBoost"
    and "applyGain (gain e) autoBoost rawBins0 = scaled"
    and "spectralPass scaled = blurred"
  shows "processedBins rawBins0 e = blurred"
  using assms by (simp add: processedBins_def spectralSmooth_def SPECTRAL_SMOOTH_PASSES_def)

lemma tick_smoothedBins_staged:
  assumes "processedBins rawBins0 e = blurred"
    and "smoothedBins e = previous"
    and "temporalSmooth blurred previous = smoothed"
  shows "smoothedBins (fst (tick rawBins0 e)) = smoothed"
  using assms by (simp add: tick_smoothedBins)

lemma applyGain_replicate:
  "applyGain g autoBoost (replicate 20 c) = replicate 20 (toFloat32 (min 1 (c * g * autoBoost)))"
  by (rule nth_equalityI) (simp_all add: applyGain_def TOTAL_BINS_def)

lemma spectralPass_replicate:
  assumes "toFloat32 c = c"
  shows "spectralPass (replicate 20 c) = replicate 20 c"
proof -
  have "c * 0.25 + c * 0.5 + c * 0.25 = c" by simp
  then have k: "toFloat32 (c * 0.25 + c * 0.5 + c * 0.25) = c" using assms by simp
  have n: "spectralPass (replicate 20 c) ! i = c" if "i < 20" for i
    using that k by (simp add: spectralPass_def Let_def TOTAL_BINS_def)
  have l: "length (spectralPass (replicate 20 c)) = 20"
    by (simp add: spectralPass_def Let_def TOTAL_BINS_def)
  show ?thesis by (rule nth_equalityI) (simp_all add: n l)
qed

lemma temporalSmooth_replicate:
  "temporalSmooth (replicate 20 raw) (replicate 20 prev) = replicate 20 (smoothBin raw prev)"
  by (rule nth_equalityI) (simp_all add: temporalSmooth_def TOTAL_BINS_def)

lemma processedBins_silence: "processedBins (replicate 20 0) e = replicate 20 0"
proof -
  have z: "toFloat32 0 = 0" by (simp add: toFloat32_def)
  have g: "applyGain (gain e) autoBoost (replicate 20 0) = replicate 20 0" for autoBoost
    by (simp add: applyGain_replicate z)
  from refl g spectralPass_replicate [OF z] show ?thesis by (rule processedBins_staged)
qed



lemma smoothBin_rest: "smoothBin 0 0 = 0"
  by code_simp




section \<open>The tick and its consumers\<close>

subsection \<open>The association list of registrations\<close>

lemma mapSet_keys: "set (map fst (mapSet k v kvs)) = insert k (set (map fst kvs))"
  by (induction kvs) (force split: if_splits)+

lemma mapSet_distinct: "distinct (map fst kvs) \<Longrightarrow> distinct (map fst (mapSet k v kvs))"
proof (induction kvs)
  case Nil
  then show ?case by simp
next
  case (Cons kv kvs)
  obtain k' v' where kv: "kv = (k', v')" by (cases kv)
  show ?case
  proof (cases "k' = k")
    case True
    with Cons.prems kv show ?thesis by simp
  next
    case False
    have "k' \<notin> set (map fst (mapSet k v kvs))"
      using Cons.prems kv False by (simp add: mapSet_keys del: set_map)
    with Cons kv False show ?thesis by simp
  qed
qed

lemma mapSet_mem: "(k, v) \<in> set (mapSet k v kvs)"
  by (induction kvs) auto

subsection \<open>Bounds on the bins of a tick\<close>

lemma applyGain_le: "i < TOTAL_BINS \<Longrightarrow> applyGain g b rawBins ! i \<le> 1"
  by (simp add: applyGain_def toFloat32_le_1)

lemma applyGain_length: "length (applyGain g b rawBins) = TOTAL_BINS"
  by (simp add: applyGain_def)

lemma spectralPass_le:
  assumes "\<forall>i<TOTAL_BINS. xs ! i \<le> 1" and "i < TOTAL_BINS"
  shows "spectralPass xs ! i \<le> 1"
proof (cases "1 \<le> i \<and> i < TOTAL_BINS - 1")
  case True
  then have "i - 1 < TOTAL_BINS" "i + 1 < TOTAL_BINS" by (auto simp add: TOTAL_BINS_def)
  then have "xs ! (i - 1) \<le> 1" "xs ! i \<le> 1" "xs ! (i + 1) \<le> 1"
    using assms by blast+
  then have "xs ! (i - 1) * 0.25 + xs ! i * 0.5 + xs ! (i + 1) * 0.25 \<le> 1" by simp
  then have "toFloat32 (xs ! (i - 1) * 0.25 + xs ! i * 0.5 + xs ! (i + 1) * 0.25) \<le> 1"
    by (rule toFloat32_le_1)
  with True assms(2) show ?thesis by (simp add: spectralPass_def)
next
  case False
  with assms show ?thesis by (auto simp add: spectralPass_def)
qed

lemma processedBins_le: "i < TOTAL_BINS \<Longrightarrow> processedBins rawBins0 e ! i \<le> 1"
  by (simp add: processedBins_def spectralSmooth_def SPECTRAL_SMOOTH_PASSES_def spectralPass_le applyGain_le)

lemma smoothBin_range:
  assumes "0 \<le> prev" and "prev \<le> 1" and "raw \<le> 1"
  shows "0 \<le> smoothBin raw prev \<and> smoothBin raw prev \<le> 1"
proof (cases "raw > prev")
  case True
  have "0 \<le> prev + (raw - prev) * (3 / 4) \<and> prev + (raw - prev) * (3 / 4) \<le> 1"
    using True assms by argo
  then have "0 \<le> toFloat32 (prev + (raw - prev) * (3 / 4)) \<and> toFloat32 (prev + (raw - prev) * (3 / 4)) \<le> 1"
    by (simp add: toFloat32_nonneg toFloat32_le_1)
  with True show ?thesis by (simp add: smoothBin_def SMOOTH_ATTACK_def)
next
  case False
  have "0 \<le> prev * (3 / 4) \<and> prev * (3 / 4) \<le> 1" using assms by simp
  then have "0 \<le> toFloat32 (prev * (3 / 4)) \<and> toFloat32 (prev * (3 / 4)) \<le> 1"
    by (simp add: toFloat32_nonneg toFloat32_le_1)
  with False show ?thesis by (simp add: smoothBin_def SMOOTH_DECAY_def Let_def)
qed

lemma temporalSmooth_range:
  assumes "length smoothed = TOTAL_BINS" and "list_all (\<lambda>v. 0 \<le> v \<and> v \<le> 1) smoothed"
  shows "list_all (\<lambda>v. 0 \<le> v \<and> v \<le> 1) (temporalSmooth (processedBins rawBins0 e) smoothed)"
proof -
  have "0 \<le> smoothBin (processedBins rawBins0 e ! i) (smoothed ! i) \<and>
        smoothBin (processedBins rawBins0 e ! i) (smoothed ! i) \<le> 1" if "i < TOTAL_BINS" for i
  proof -
    have "0 \<le> smoothed ! i \<and> smoothed ! i \<le> 1"
      using assms that by (simp add: list_all_length)
    then show ?thesis using processedBins_le [OF that] smoothBin_range by blast
  qed
  then show ?thesis by (simp add: temporalSmooth_def list_all_iff)
qed

lemma temporalSmooth_length: "length (temporalSmooth rawBins smoothed) = TOTAL_BINS"
  by (simp add: temporalSmooth_def)

subsection \<open>The engine's invariant\<close>

lemma tick_actions:
  "actions (fst (tick rawBins0 e)) =
     map (\<lambda>(k, reg). (k, fst (tickAction (smoothedBins (fst (tick rawBins0 e))) (currentTheme e) reg))) (actions e)"
  by (simp add: tick_def Let_def case_prod_unfold comp_def processedBins_def)

lemma tick_output:
  "snd (tick rawBins0 e) =
     concat (map (\<lambda>(k, reg). map (Pair k) (snd (tickAction (smoothedBins (fst (tick rawBins0 e))) (currentTheme e) reg))) (actions e))"
  by (simp add: tick_def Let_def case_prod_unfold comp_def processedBins_def)

lemma tick_keys: "map fst (actions (fst (tick rawBins0 e))) = map fst (actions e)"
  by (simp add: tick_actions case_prod_unfold comp_def)

lemma tick_fields:
  "gain (fst (tick rawBins0 e)) = gain e \<and> themeIndex (fst (tick rawBins0 e)) = themeIndex e \<and>
   autoGainPeak (fst (tick rawBins0 e)) = trackPeak (autoGainPeak e) (framePeakOf rawBins0)"
  by (simp add: tick_def Let_def)

lemma trackPeak_floor: "AUTO_GAIN_MIN_PEAK \<le> trackPeak peak framePeak"
  by (simp add: trackPeak_def)

lemma engineInv_new: "engineInv newAudioEngine"
  by (simp add: engineInv_def newAudioEngine_def THEME_NAMES_def list_all_iff)

lemma engineInv_register: "engineInv e \<Longrightarrow> engineInv (registerAction actionId act col e)"
  by (simp add: engineInv_def registerAction_def mapSet_distinct)

lemma engineInv_unregister: "engineInv e \<Longrightarrow> engineInv (unregisterAction actionId e)"
  by (simp add: engineInv_def unregisterAction_def distinct_map_filter)

lemma engineInv_gain: "engineInv e \<Longrightarrow> engineInv (adjustGain delta e)"
  by (simp add: engineInv_def adjustGain_def)

lemma engineInv_theme: "engineInv e \<Longrightarrow> engineInv (nextTheme e)"
  by (simp add: engineInv_def nextTheme_def THEME_NAMES_def)

lemma engineInv_tick: "engineInv e \<Longrightarrow> engineInv (fst (tick rawBins0 e))"
  unfolding engineInv_def
  by (simp add: tick_keys tick_fields trackPeak_floor tick_smoothedBins temporalSmooth_length temporalSmooth_range)

lemma reachable_inv: "reachable e \<Longrightarrow> engineInv e"
  by (induction rule: reachable.induct)
     (simp_all add: engineInv_new engineInv_register engineInv_unregister engineInv_gain engineInv_theme engineInv_tick)

subsection \<open>Dirty detection\<close>

lemma isDirty_iff:
  "isDirty dialSlice leftEdge rightEdge reg \<longleftrightarrow>
     (\<exists>b<BARS_PER_DIAL. jsAbsDiffGt (dialSlice ! b) (lastSent reg ! b) DIRTY_THRESHOLD) \<or>
     jsAbsDiffGt leftEdge (lastLeftEdge reg) DIRTY_THRESHOLD \<or>
     jsAbsDiffGt rightEdge (lastRightEdge reg) DIRTY_THRESHOLD"
  by (auto simp add: isDirty_def Let_def list_ex_iff)

lemma framesFor_concat:
  assumes "distinct (map fst kvs)" and "(actionId, reg) \<in> set kvs"
  shows "framesFor actionId (concat (map (\<lambda>(k, r). map (Pair k) (f r)) kvs)) = f reg"
  using assms
proof (induction kvs)
  case Nil
  then show ?case by simp
next
  case (Cons kv kvs)
  obtain k r where kv: "kv = (k, r)" by (cases kv)
  have other: "framesFor actionId (concat (map (\<lambda>(k, r). map (Pair k) (f r)) kvs)) = []"
    if "actionId \<notin> fst ` set kvs"
    using that by (induction kvs) (auto simp add: framesFor_def filter_empty_conv)
  show ?case
  proof (cases "kv = (actionId, reg)")
    case True
    then have "actionId \<notin> fst ` set kvs" using Cons.prems(1) by simp
    from other [OF this] True show ?thesis
      by (simp add: framesFor_def comp_def)
  next
    case False
    then have mem: "(actionId, reg) \<in> set kvs" using Cons.prems(2) by simp
    then have "k \<noteq> actionId" using Cons.prems(1) kv by (auto simp add: image_iff)
    moreover have "framesFor actionId (concat (map (\<lambda>(k, r). map (Pair k) (f r)) kvs)) = f reg"
      using Cons.IH Cons.prems(1) mem by simp
    ultimately show ?thesis using kv
      by (simp add: framesFor_def filter_empty_conv)
  qed
qed



lemma edge_far: "0 \<le> x \<Longrightarrow> jsAbsDiffGt (Some x) (Some (- 1)) DIRTY_THRESHOLD"
  by (simp add: jsAbsDiffGt_def DIRTY_THRESHOLD_def)

lemma fresh_registration_dirty:
  assumes len: "length smoothed = TOTAL_BINS" and nonneg: "list_all (\<lambda>v. 0 \<le> v \<and> v \<le> 1) smoothed"
    and l: "lastLeftEdge reg = Some (- 1)" and r: "lastRightEdge reg = Some (- 1)"
  shows "isDirty (dialSliceOf smoothed (column reg)) (leftEdgeOf smoothed (column reg))
           (rightEdgeOf smoothed (column reg)) reg"
proof -
  let ?c = "column reg"
  consider "?c \<le> 0" | "3 \<le> ?c" | "?c = 1" | "?c = 2" by linarith
  then show ?thesis
  proof cases
    case 1
    then have "leftEdgeOf smoothed ?c = Some 0" by (simp add: leftEdgeOf_def Let_def)
    then show ?thesis by (simp add: isDirty_iff l jsAbsDiffGt_def DIRTY_THRESHOLD_def)
  next
    case 2
    then have "rightEdgeOf smoothed ?c = Some 0" by (simp add: rightEdgeOf_def Let_def)
    then show ?thesis by (simp add: isDirty_iff r jsAbsDiffGt_def DIRTY_THRESHOLD_def)
  next
    case 3
    have "0 \<le> smoothed ! 4" "0 \<le> smoothed ! 5"
      using len nonneg by (simp_all add: list_all_length TOTAL_BINS_def)
    then have "0 \<le> (smoothed ! 4 + smoothed ! 5) * 0.5" by simp
    moreover have "leftEdgeOf smoothed ?c = Some ((smoothed ! 4 + smoothed ! 5) * 0.5)"
      using 3 len
      by (simp add: leftEdgeOf_def Let_def readF32_def jsAdd_def jsMul_def BARS_PER_DIAL_def TOTAL_BINS_def)
    ultimately have "jsAbsDiffGt (leftEdgeOf smoothed ?c) (Some (- 1)) DIRTY_THRESHOLD"
      by (simp only: edge_far)
    then show ?thesis by (simp add: isDirty_iff l)
  next
    case 4
    have "0 \<le> smoothed ! 9" "0 \<le> smoothed ! 10"
      using len nonneg by (simp_all add: list_all_length TOTAL_BINS_def)
    then have "0 \<le> (smoothed ! 9 + smoothed ! 10) * 0.5" by simp
    moreover have "leftEdgeOf smoothed ?c = Some ((smoothed ! 9 + smoothed ! 10) * 0.5)"
      using 4 len
      by (simp add: leftEdgeOf_def Let_def readF32_def jsAdd_def jsMul_def BARS_PER_DIAL_def TOTAL_BINS_def)
    ultimately have "jsAbsDiffGt (leftEdgeOf smoothed ?c) (Some (- 1)) DIRTY_THRESHOLD"
      by (simp only: edge_far)
    then show ?thesis by (simp add: isDirty_iff l)
  qed
qed

text \<open>
  C10. From any state the engine can reach, the first tick after \<open>registerAction\<close> delivers
  exactly one frame to the consumer just registered, whatever the raw bins and whatever the
  column: the registration starts with both last-sent edges at -1 and the edges of a tick
  are never negative.
\<close>

theorem first_tick_after_register_dirty:
  assumes "reachable e"
  shows "let e1 = registerAction actionId act col e;
             smoothed = smoothedBins (fst (tick rawBins e1))
         in framesFor actionId (snd (tick rawBins e1)) =
              [\<lparr> fcBins = dialSliceOf smoothed col, fcTheme = currentTheme e, fcNumBars = BARS_PER_DIAL,
                 fcLeftEdge = leftEdgeOf smoothed col, fcRightEdge = rightEdgeOf smoothed col \<rparr>]"
proof -
  let ?reg = "\<lparr> action = act, column = col, lastSent = replicate BARS_PER_DIAL (Some 0),
                lastLeftEdge = Some (- 1), lastRightEdge = Some (- 1) \<rparr>"
  let ?e1 = "registerAction actionId act col e"
  let ?sm = "smoothedBins (fst (tick rawBins ?e1))"
  have inv1: "engineInv ?e1"
    using assms by (simp add: reachable_inv engineInv_register)
  have inv2: "engineInv (fst (tick rawBins ?e1))"
    using inv1 by (rule engineInv_tick)
  have d: "distinct (map fst (actions ?e1))" using inv1 by (simp add: engineInv_def)
  have m: "(actionId, ?reg) \<in> set (actions ?e1)"
    by (simp add: registerAction_def mapSet_mem)
  have fr: "framesFor actionId (snd (tick rawBins ?e1)) = snd (tickAction ?sm (currentTheme ?e1) ?reg)"
    unfolding tick_output using d m by (rule framesFor_concat)
  have dirty: "isDirty (dialSliceOf ?sm (column ?reg)) (leftEdgeOf ?sm (column ?reg)) (rightEdgeOf ?sm (column ?reg)) ?reg"
    using inv2 by (intro fresh_registration_dirty) (simp_all add: engineInv_def)
  have th: "currentTheme ?e1 = currentTheme e"
    by (simp add: currentTheme_def registerAction_def)
  show ?thesis
    unfolding Let_def fr using dirty by (simp add: tickAction_def Let_def th)
qed

theorem first_tick_after_register_dirty_witness:
  "reachable (newAudioEngine :: unit AudioEngine)
   \<and> framesFor ''dial0'' (snd (tick (replicate 20 0) (registerAction ''dial0'' () 0 (newAudioEngine :: unit AudioEngine)))) =
       [\<lparr> fcBins = replicate 5 (Some 0), fcTheme = ''neon'', fcNumBars = 5, fcLeftEdge = Some 0, fcRightEdge = Some 0 \<rparr>]"
proof -
  let ?e = "newAudioEngine :: unit AudioEngine"
  let ?e1 = "registerAction ''dial0'' () 0 ?e"
  have r: "reachable ?e" by (rule r_new)
  have s1: "smoothedBins ?e1 = replicate 20 0" by code_simp
  have sm: "smoothedBins (fst (tick (replicate 20 0) ?e1)) = replicate 20 0"
    using processedBins_silence s1
    by (rule tick_smoothedBins_staged) (simp only: temporalSmooth_replicate smoothBin_rest)
  have sl: "dialSliceOf (replicate 20 0) 0 = replicate 5 (Some 0)" by code_simp
  have le: "leftEdgeOf (replicate 20 0) 0 = Some 0" by code_simp
  have re: "rightEdgeOf (replicate 20 0) 0 = Some 0" by code_simp
  have th: "currentTheme ?e = ''neon''" by code_simp
  have n: "BARS_PER_DIAL = 5" by (simp add: BARS_PER_DIAL_def)
  from first_tick_after_register_dirty [OF r, of "''dial0''" "()" 0 "replicate 20 0"]
  have "framesFor ''dial0'' (snd (tick (replicate 20 0) ?e1)) =
       [\<lparr> fcBins = replicate 5 (Some 0), fcTheme = ''neon'', fcNumBars = 5, fcLeftEdge = Some 0, fcRightEdge = Some 0 \<rparr>]"
    unfolding Let_def sm sl le re th n .
  with r show ?thesis by blast
qed


section \<open>The bass branch of the frequency mapper\<close>













section \<open>The sample ring\<close>

declare chunkLoop.simps [simp del]

lemma chunkLoop_fold:
  assumes "4 * n \<le> length chunk"
  shows "i \<le> n \<Longrightarrow> chunkLoop chunk n i s = Inr (foldl (\<lambda>s k. pushSample (sampleAt chunk (k * 4)) s) s [i..<n])"
proof (induction "n - i" arbitrary: i s)
  case 0
  then have "i = n" by simp
  then show ?case by (simp add: chunkLoop.simps [of chunk n n])
next
  case (Suc d)
  then have lt: "i < n" by simp
  then have rd: "readFloatLE chunk (i * 4) = Inr (sampleAt chunk (i * 4))"
    using assms by (simp add: readFloatLE_def)
  have "chunkLoop chunk n i s = chunkLoop chunk n (i + 1) (pushSample (sampleAt chunk (i * 4)) s)"
    using lt rd by (simp add: chunkLoop.simps [of chunk n i])
  also have "\<dots> = Inr (foldl (\<lambda>s k. pushSample (sampleAt chunk (k * 4)) s) (pushSample (sampleAt chunk (i * 4)) s) [i + 1..<n])"
    using Suc lt by (intro Suc.hyps(1)) simp_all
  also have "\<dots> = Inr (foldl (\<lambda>s k. pushSample (sampleAt chunk (k * 4)) s) s [i..<n])"
    using lt by (simp add: upt_conv_Cons)
  finally show ?case .
qed

lemma processAudioChunk_pushAll: "processAudioChunk chunk s = Inr (pushAll chunk (length chunk div 4) s)"
proof -
  have "4 * (length chunk div 4) \<le> length chunk" by simp
  from chunkLoop_fold [OF this, of 0 s] show ?thesis
    by (simp add: processAudioChunk_def pushAll_def)
qed

lemma pushAll_Suc: "pushAll chunk (Suc n) s = pushSample (sampleAt chunk (n * 4)) (pushAll chunk n s)"
  by (simp add: pushAll_def)

lemma pushSample_fields:
  "sampleBuffer (pushSample v s) = (sampleBuffer s)[writePos s := v]"
  "writePos (pushSample v s) = (writePos s + 1) mod FFT_SIZE"
  "hopCount (pushSample v s) = (if hopCount s + 1 \<ge> HOP_SIZE then 0 else hopCount s + 1)"
  "fftStarts (pushSample v s) =
     (if hopCount s + 1 \<ge> HOP_SIZE then fftStarts s @ [(writePos s + 1) mod FFT_SIZE] else fftStarts s)"
  by (simp_all add: pushSample_def computeFFT_def Let_def)

lemma pushAll_cursor:
  "writePos s < FFT_SIZE \<Longrightarrow> writePos (pushAll chunk n s) = (writePos s + n) mod FFT_SIZE"
  by (induction n) (simp_all add: pushAll_Suc pushSample_fields pushAll_def mod_Suc_eq)

lemma pushAll_length: "length (sampleBuffer (pushAll chunk n s)) = length (sampleBuffer s)"
  by (induction n) (simp_all add: pushAll_Suc pushSample_fields pushAll_def)

lemma pushAll_hop:
  assumes "hopCount s < HOP_SIZE"
  shows "hopCount (pushAll chunk n s) = (hopCount s + n) mod HOP_SIZE \<and>
         length (fftStarts (pushAll chunk n s)) = length (fftStarts s) + (hopCount s + n) div HOP_SIZE"
proof (induction n)
  case 0
  with assms show ?case by (simp add: pushAll_def)
next
  case (Suc n)
  have H: "HOP_SIZE = 1024" by (simp add: HOP_SIZE_def FFT_SIZE_def)
  have lt: "(hopCount s + n) mod HOP_SIZE < HOP_SIZE" by (simp add: H)
  show ?case
  proof (cases "Suc ((hopCount s + n) mod HOP_SIZE) = HOP_SIZE")
    case True
    then show ?thesis using Suc
      by (simp add: pushAll_Suc pushSample_fields mod_Suc div_Suc)
  next
    case False
    then have "Suc ((hopCount s + n) mod HOP_SIZE) < HOP_SIZE" using lt by simp
    then show ?thesis using Suc False
      by (simp add: pushAll_Suc pushSample_fields mod_Suc div_Suc)
  qed
qed

lemma ring_positions_differ:
  assumes "k < n" and "n - k < m"
  shows "(w + k) mod m \<noteq> (w + n) mod (m::nat)"
proof
  assume "(w + k) mod m = (w + n) mod m"
  then have "(w + n) mod m = (w + k) mod m" by simp
  then have "m dvd (w + n) - (w + k)"
    using assms(1) by (simp add: mod_eq_dvd_iff_nat)
  then have "m dvd n - k" using assms(1) by simp
  then have "m \<le> n - k" using assms(1) by (intro dvd_imp_le) simp_all
  with assms(2) show False by simp
qed

lemma pushAll_buffer:
  assumes len: "length (sampleBuffer s) = FFT_SIZE" and w: "writePos s < FFT_SIZE"
  shows "(\<forall>k<n. n - k \<le> FFT_SIZE \<longrightarrow>
            sampleBuffer (pushAll chunk n s) ! ((writePos s + k) mod FFT_SIZE) = sampleAt chunk (k * 4)) \<and>
         (\<forall>p<FFT_SIZE. (\<forall>k<n. (writePos s + k) mod FFT_SIZE \<noteq> p) \<longrightarrow>
            sampleBuffer (pushAll chunk n s) ! p = sampleBuffer s ! p)"
proof (induction n)
  case 0
  show ?case by (simp add: pushAll_def)
next
  case (Suc n)
  let ?b = "sampleBuffer (pushAll chunk n s)"
  let ?pn = "(writePos s + n) mod FFT_SIZE"
  have F: "0 < FFT_SIZE" by (simp add: FFT_SIZE_def)
  have pn: "?pn < length ?b" using F by (simp add: pushAll_length len)
  have buf: "sampleBuffer (pushAll chunk (Suc n) s) = ?b[?pn := sampleAt chunk (n * 4)]"
    by (simp add: pushAll_Suc pushSample_fields pushAll_cursor [OF w])
  have A: "?b[?pn := sampleAt chunk (n * 4)] ! ((writePos s + k) mod FFT_SIZE) = sampleAt chunk (k * 4)"
    if "k < Suc n" and "Suc n - k \<le> FFT_SIZE" for k
  proof (cases "k = n")
    case True
    then show ?thesis using pn by simp
  next
    case False
    with that have kn: "k < n" and d: "n - k < FFT_SIZE" by simp_all
    then have "n - k \<le> FFT_SIZE" by simp
    with Suc.IH kn have old: "?b ! ((writePos s + k) mod FFT_SIZE) = sampleAt chunk (k * 4)" by blast
    have "(writePos s + k) mod FFT_SIZE \<noteq> ?pn" using kn d by (rule ring_positions_differ)
    then show ?thesis using old by simp
  qed
  have B: "?b[?pn := sampleAt chunk (n * 4)] ! p = sampleBuffer s ! p"
    if "p < FFT_SIZE" and "\<forall>k<Suc n. (writePos s + k) mod FFT_SIZE \<noteq> p" for p
  proof -
    from that(2) have ne: "?pn \<noteq> p" and rest: "\<forall>k<n. (writePos s + k) mod FFT_SIZE \<noteq> p" by simp_all
    from Suc.IH that(1) rest have "?b ! p = sampleBuffer s ! p" by blast
    with ne show ?thesis by simp
  qed
  show ?case unfolding buf using A B by blast
qed

text \<open>
  C4. From a ring of 2048 samples with the write cursor inside it and the hop counter below
  1024, \<open>processAudioChunk\<close> on a chunk of \<open>L\<close> bytes never fails; it pushes exactly the first
  \<open>L div 4\<close> samples of the chunk, in order (a trailing partial sample is not read): each of the
  last 2048 of them stands at its ring position afterwards and no other position changes; the
  write cursor advances by \<open>L div 4\<close> modulo 2048; the hop counter ends at
  \<open>(hopCount + L div 4) mod 1024\<close>, below 1024; and the analysis has run once for every time the
  counter reached 1024, that is \<open>(hopCount + L div 4) div 1024\<close> times.
\<close>

theorem processAudioChunk_ring:
  assumes "length (sampleBuffer s) = FFT_SIZE" and "writePos s < FFT_SIZE" and "hopCount s < HOP_SIZE"
  shows "\<exists>s'. processAudioChunk chunk s = Inr s' \<and> s' = pushAll chunk (length chunk div 4) s
       \<and> length (sampleBuffer s') = FFT_SIZE
       \<and> (\<forall>k < length chunk div 4. length chunk div 4 - k \<le> FFT_SIZE \<longrightarrow>
              sampleBuffer s' ! ((writePos s + k) mod FFT_SIZE) = sampleAt chunk (k * 4))
       \<and> (\<forall>p < FFT_SIZE. (\<forall>k < length chunk div 4. (writePos s + k) mod FFT_SIZE \<noteq> p) \<longrightarrow>
              sampleBuffer s' ! p = sampleBuffer s ! p)
       \<and> writePos s' = (writePos s + length chunk div 4) mod 2048
       \<and> hopCount s' = (hopCount s + length chunk div 4) mod 1024 \<and> hopCount s' < 1024
       \<and> length (fftStarts s') = length (fftStarts s) + (hopCount s + length chunk div 4) div 1024"
proof -
  let ?n = "length chunk div 4"
  let ?s' = "pushAll chunk ?n s"
  have F: "FFT_SIZE = 2048" and H: "HOP_SIZE = 1024" by (simp_all add: HOP_SIZE_def FFT_SIZE_def)
  have 1: "processAudioChunk chunk s = Inr ?s'" by (rule processAudioChunk_pushAll)
  have 2: "length (sampleBuffer ?s') = FFT_SIZE" using assms(1) by (simp add: pushAll_length)
  note 3 = pushAll_buffer [OF assms(1) assms(2), of ?n chunk]
  have 4: "writePos ?s' = (writePos s + ?n) mod 2048"
    using pushAll_cursor [OF assms(2), of chunk ?n] by (simp add: F)
  have 5: "hopCount ?s' = (hopCount s + ?n) mod 1024"
    and 6: "length (fftStarts ?s') = length (fftStarts s) + (hopCount s + ?n) div 1024"
    using pushAll_hop [OF assms(3), of chunk ?n] by (simp_all add: H)
  have 7: "hopCount ?s' < 1024" unfolding 5 by simp
  from 1 2 3 4 5 6 7 show ?thesis by blast
qed

theorem processAudioChunk_ring_witness:
  "length (sampleBuffer newWasapiAudioSource) = FFT_SIZE \<and> writePos newWasapiAudioSource < FFT_SIZE
   \<and> hopCount newWasapiAudioSource < HOP_SIZE
   \<and> (\<exists>s'. processAudioChunk [1, 2, 3, 4, 5, 6, 7, 8, 9] newWasapiAudioSource = Inr s'
          \<and> sampleBuffer s' ! 0 = 0x04030201 \<and> sampleBuffer s' ! 1 = 0x08070605 \<and> sampleBuffer s' ! 2 = 0
          \<and> writePos s' = 2 \<and> hopCount s' = 2 \<and> fftStarts s' = [])
   \<and> (\<exists>s'. processAudioChunk (replicate 4099 0) newWasapiAudioSource = Inr s'
          \<and> writePos s' = 1024 \<and> hopCount s' = 0 \<and> length (fftStarts s') = 1)"
proof -
  let ?s = newWasapiAudioSource
  have h1: "length (sampleBuffer ?s) = FFT_SIZE" by (simp add: newWasapiAudioSource_def)
  have h2: "writePos ?s < FFT_SIZE" by (simp add: newWasapiAudioSource_def FFT_SIZE_def)
  have h3: "hopCount ?s < HOP_SIZE" by (simp add: newWasapiAudioSource_def HOP_SIZE_def FFT_SIZE_def)
  have F: "FFT_SIZE = 2048" by (simp add: FFT_SIZE_def)
  have z: "writePos ?s = 0" "hopCount ?s = 0" "fftStarts ?s = []" "sampleBuffer ?s ! 2 = 0"
    by (simp_all add: newWasapiAudioSource_def F)
  have s0: "sampleAt [1, 2, 3, 4, 5, 6, 7, 8, 9] (0 * 4) = 0x04030201"
    and s1: "sampleAt [1, 2, 3, 4, 5, 6, 7, 8, 9] (1 * 4) = 0x08070605"
    by (simp_all add: sampleAt_def word_rcat_def)
  from processAudioChunk_ring [OF h1 h2 h3, of "[1, 2, 3, 4, 5, 6, 7, 8, 9]"]
  obtain s' where r: "processAudioChunk [1, 2, 3, 4, 5, 6, 7, 8, 9] ?s = Inr s'"
    and a: "\<forall>k<2. 2 - k \<le> FFT_SIZE \<longrightarrow> sampleBuffer s' ! ((writePos ?s + k) mod FFT_SIZE) = sampleAt [1, 2, 3, 4, 5, 6, 7, 8, 9] (k * 4)"
    and b: "\<forall>p<FFT_SIZE. (\<forall>k<2. (writePos ?s + k) mod FFT_SIZE \<noteq> p) \<longrightarrow> sampleBuffer s' ! p = sampleBuffer ?s ! p"
    and c: "writePos s' = 2" "hopCount s' = 2" "length (fftStarts s') = 0"
    by (auto simp add: z)
  have a0: "sampleBuffer s' ! 0 = 0x04030201" using a [rule_format, of 0] s0 by (simp add: z F)
  have a1: "sampleBuffer s' ! 1 = 0x08070605" using a [rule_format, of 1] s1 by (simp add: z F)
  have ne: "\<forall>k<2. (writePos ?s + k) mod FFT_SIZE \<noteq> 2"
  proof (intro allI impI)
    fix k :: nat
    assume k: "k < 2"
    then have "k mod 2048 = k" by simp
    with k show "(writePos ?s + k) mod FFT_SIZE \<noteq> 2" by (simp add: z F)
  qed
  have "(2::nat) < FFT_SIZE" by (simp add: F)
  with b ne have "sampleBuffer s' ! 2 = sampleBuffer ?s ! 2" by blast
  then have a2: "sampleBuffer s' ! 2 = 0" by (simp add: z)
  have first: "\<exists>s'. processAudioChunk [1, 2, 3, 4, 5, 6, 7, 8, 9] ?s = Inr s'
          \<and> sampleBuffer s' ! 0 = 0x04030201 \<and> sampleBuffer s' ! 1 = 0x08070605 \<and> sampleBuffer s' ! 2 = 0
          \<and> writePos s' = 2 \<and> hopCount s' = 2 \<and> fftStarts s' = []"
    using r a0 a1 a2 c by simp
  from processAudioChunk_ring [OF h1 h2 h3, of "replicate 4099 0"]
  have second: "\<exists>s'. processAudioChunk (replicate 4099 0) ?s = Inr s'
          \<and> writePos s' = 1024 \<and> hopCount s' = 0 \<and> length (fftStarts s') = 1"
    by (auto simp add: z)
  from h1 h2 h3 first second show ?thesis by blast
qed

section \<open>Ranges in the renderer\<close>

lemma clamp01_range: "0 \<le> clamp01 v \<and> clamp01 v \<le> 1"
  by (simp add: clamp01_def)

lemma controlY_range: "list_all (\<lambda>y. 0 \<le> y \<and> y \<le> 1) (controlY bins numBars leftEdge rightEdge)"
  by (simp add: controlY_def list_all_iff clamp01_range)

lemma curveHeights_nth:
  "x < STRIP_WIDTH \<Longrightarrow>
     curveHeightsOf bins numBars leftEdge rightEdge ! x = clamp01 (curveAt bins numBars leftEdge rightEdge (real x)) * 96"
  by (simp add: curveHeightsOf_def Let_def STRIP_HEIGHT_def)

lemma curveHeights_range: "list_all (\<lambda>h. 0 \<le> h \<and> h \<le> 96) (curveHeightsOf bins numBars leftEdge rightEdge)"
proof -
  have "0 \<le> clamp01 v * 96 \<and> clamp01 v * 96 \<le> 96" for v
    using clamp01_range [of v] by simp
  then show ?thesis
    by (simp add: curveHeightsOf_def Let_def STRIP_HEIGHT_def list_all_iff)
qed

lemma toInt32_small: "0 \<le> x \<Longrightarrow> x < 2147483648 \<Longrightarrow> toInt32 (Some x) = \<lfloor>x\<rfloor>"
proof -
  assume a: "0 \<le> x" and b: "x < 2147483648"
  have "0 \<le> \<lfloor>x\<rfloor>" using a by simp
  moreover have "\<lfloor>x\<rfloor> < 2147483648" using b by (simp add: floor_less_iff)
  ultimately show ?thesis using a by (simp add: toInt32_def Let_def)
qed

lemma fillChannel_byte:
  assumes "lutByte c" and "0 \<le> f" and "f \<le> 1"
  shows "isByte (fillChannel c f)"
proof (cases c)
  case None
  then show ?thesis by (simp add: fillChannel_def jsMul_def jsAdd_def toInt32_def isByte_def)
next
  case (Some v)
  with assms have v: "0 \<le> v" "v \<le> 255" by (simp_all add: lutByte_def)
  have lo: "0 \<le> v * f + 0.5" using v assms by simp
  have "v * f \<le> 255 * 1" using v assms by (intro mult_mono) simp_all
  then have hi: "v * f + 0.5 < 256" by simp
  then have "toInt32 (Some (v * f + 0.5)) = \<lfloor>v * f + 0.5\<rfloor>" using lo by (intro toInt32_small) simp_all
  moreover have "0 \<le> \<lfloor>v * f + 0.5\<rfloor>" using lo by simp
  moreover have "\<lfloor>v * f + 0.5\<rfloor> < 256" using hi by (simp add: floor_less_iff)
  ultimately show ?thesis using Some by (simp add: fillChannel_def jsMul_def jsAdd_def isByte_def)
qed

lemma glowChannel_byte:
  assumes "lutByte c" and "0 \<le> m" and "m \<le> 2"
  shows "isByte (glowChannel c m)"
proof (cases c)
  case None
  then show ?thesis by (simp add: glowChannel_def jsMul_def jsAdd_def toInt32_def isByte_def)
next
  case (Some v)
  with assms have v: "0 \<le> v" "v \<le> 255" by (simp_all add: lutByte_def)
  have lo: "0 \<le> v * m + 0.5" using v assms by simp
  have "v * m \<le> 255 * 2" using v assms by (intro mult_mono) simp_all
  then have hi: "v * m + 0.5 < 2147483648" by simp
  then have "toInt32 (Some (v * m + 0.5)) = \<lfloor>v * m + 0.5\<rfloor>" using lo by (intro toInt32_small) simp_all
  moreover have "0 \<le> \<lfloor>v * m + 0.5\<rfloor>" using lo by simp
  ultimately show ?thesis using Some by (simp add: glowChannel_def jsMul_def jsAdd_def isByte_def)
qed

lemma readU8_lutByte:
  assumes "list_all (\<lambda>n. n < 256) arr"
  shows "lutByte (readU8 arr k)"
proof (cases "0 \<le> k \<and> k < int (length arr)")
  case True
  then have "nat k < length arr" by linarith
  with assms have "arr ! nat k < 256" by (simp add: list_all_length)
  then have "real (arr ! nat k) \<le> 255" by simp
  with True show ?thesis by (simp add: readU8_def lutByte_def)
next
  case False
  then show ?thesis by (auto simp add: readU8_def lutByte_def)
qed

lemma getGradientLUT_bytes: "list_all (\<lambda>n. n < 256) (getGradientLUT themeName)"
  by (auto simp add: getGradientLUT_def list_all_iff toUint8_def)

lemma writePx_bytes: "list_all isByte buf \<Longrightarrow> isByte v \<Longrightarrow> list_all isByte (writePx buf idx v)"
  by (auto simp add: writePx_def list_all_iff dest: set_update_subset_insert [THEN subsetD])

lemma foldl_preserves:
  assumes "\<And>acc y. y \<in> set ys \<Longrightarrow> P acc \<Longrightarrow> P (f acc y)" and "P acc0"
  shows "P (foldl f acc0 ys)"
  using assms by (induction ys arbitrary: acc0) simp_all

lemma fillPixel_bytes:
  assumes "list_all (\<lambda>n. n < 256) lut" and "list_all isByte buf" and "y \<le> int STRIP_HEIGHT - 1"
  shows "list_all isByte (fillPixel lut x buf y)"
proof -
  let ?d = "int STRIP_HEIGHT - 1 - y"
  let ?fade = "if ?d < 3 then (real_of_int ?d + 1) * 0.25 else 1.0"
  have d: "0 \<le> ?d" using assms(3) by simp
  then have f: "0 \<le> ?fade" "?fade \<le> 1" by auto
  have w: "isByte 255" by (simp add: isByte_def)
  show ?thesis
    unfolding fillPixel_def Let_def
    by (intro writePx_bytes fillChannel_byte readU8_lutByte assms(1) assms(2) f w)
qed

lemma glowPixel_bytes:
  assumes "lutByte gr" and "lutByte gg" and "lutByte gb" and "list_all isByte buf"
  shows "list_all isByte (glowPixel gr gg gb topY x buf g_row)"
proof -
  let ?m = "if g_row = 0 then 1.6 else if g_row = 1 then 1.3 else (1.1::real)"
  have m: "0 \<le> ?m" "?m \<le> 2" by auto
  have w: "isByte 255" by (simp add: isByte_def)
  have "list_all isByte
          (writePx (writePx (writePx (writePx buf idx (glowChannel gr ?m)) (idx + 1) (glowChannel gg ?m))
             (idx + 2) (glowChannel gb ?m)) (idx + 3) 255)" for idx
    by (intro writePx_bytes glowChannel_byte assms m w)
  then show ?thesis using assms(4) by (simp add: glowPixel_def Let_def)
qed

lemma renderColumn_bytes:
  assumes lut: "list_all (\<lambda>n. n < 256) lut" and buf: "list_all isByte buf"
  shows "list_all isByte (renderColumn lut hs buf x)"
proof (cases "toInt32 (Some (hs ! x + 0.5)) \<le> 0")
  case True
  then show ?thesis using buf by (simp add: renderColumn_def Let_def)
next
  case False
  let ?topY = "int STRIP_HEIGHT - toInt32 (Some (hs ! x + 0.5))"
  let ?filled = "foldl (fillPixel lut x) buf (rev [max ?topY 0 .. int STRIP_HEIGHT - 1])"
  have filled: "list_all isByte ?filled"
  proof (rule foldl_preserves [where P = "list_all isByte"])
    fix acc y
    assume "y \<in> set (rev [max ?topY 0 .. int STRIP_HEIGHT - 1])" and "list_all isByte acc"
    then show "list_all isByte (fillPixel lut x acc y)"
      by (intro fillPixel_bytes lut) simp_all
  qed (rule buf)
  have "list_all isByte (foldl (glowPixel gr gg gb ?topY x) ?filled [0..<3])"
    if "lutByte gr" "lutByte gg" "lutByte gb" for gr gg gb
  proof (rule foldl_preserves [where P = "list_all isByte"])
    fix acc k
    assume "list_all isByte acc"
    with that show "list_all isByte (glowPixel gr gg gb ?topY x acc k)" by (intro glowPixel_bytes)
  qed (rule filled)
  then show ?thesis using False
    by (simp add: renderColumn_def Let_def readU8_lutByte [OF lut])
qed

lemma renderPixels_bytes: "list_all isByte (renderPixels bins themeName numBars leftEdge rightEdge)"
  unfolding renderPixels_def Let_def
proof (rule foldl_preserves [where P = "list_all isByte"])
  fix acc x
  assume "list_all isByte acc"
  then show "list_all isByte (renderColumn (getGradientLUT themeName) (curveHeightsOf bins numBars leftEdge rightEdge) acc x)"
    by (intro renderColumn_bytes getGradientLUT_bytes)
next
  show "list_all isByte (replicate (STRIP_WIDTH * STRIP_HEIGHT * 4) 0)"
    by (simp add: list_all_iff isByte_def)
qed

lemma renderPixels_length: "length (renderPixels bins themeName numBars leftEdge rightEdge) = 80000"
proof -
  have w: "length (writePx buf idx v) = length buf" for buf idx v by (simp add: writePx_def)
  have f: "length (fillPixel lut x buf y) = length buf" for lut x buf y
    by (simp add: fillPixel_def Let_def w)
  have g: "length (glowPixel gr gg gb topY x buf k) = length buf" for gr gg gb topY x buf k
    by (simp add: glowPixel_def Let_def w)
  have ff: "length (foldl (fillPixel lut x) buf ys) = length buf" for lut x buf ys
    by (induction ys arbitrary: buf) (simp_all add: f)
  have gg: "length (foldl (glowPixel gr gg gb topY x) buf ks) = length buf" for gr gg gb topY x buf ks
    by (induction ks arbitrary: buf) (simp_all add: g)
  have c: "length (renderColumn lut hs buf x) = length buf" for lut hs buf x
    by (simp add: renderColumn_def Let_def ff gg)
  have "length (foldl (renderColumn lut hs) buf xs) = length buf" for lut hs buf xs
    by (induction xs arbitrary: buf) (simp_all add: c)
  then show ?thesis by (simp add: renderPixels_def Let_def STRIP_WIDTH_def STRIP_HEIGHT_def)
qed

text \<open>
  C3. After a tick from any reachable engine state every smoothed band value lies in \<open>[0, 1]\<close>.
  In \<open>renderVisualizerFrame\<close> (for at most 128 bars, all present in \<open>bins\<close>) every control-point
  \<open>y\<close> lies in \<open>[0, 1]\<close>, every curve height is the spline value clamped to \<open>[0, 1]\<close> and scaled
  by 96, hence in \<open>[0, 96]\<close>, and every number assigned to a byte of the pixel buffer lies in
  \<open>[0, 255]\<close>; a glow channel computed from a table byte with any of the multipliers stays a
  byte, and full intensity 255 stays 255 under 1.6, 1.3 and 1.1.
\<close>

theorem values_stay_in_range:
  assumes "reachable e" and "numBars \<le> length bins" and "numBars + 2 \<le> MAX_POINTS"
  shows "list_all (\<lambda>v. 0 \<le> v \<and> v \<le> 1) (smoothedBins (fst (tick rawBins e)))
       \<and> list_all (\<lambda>y. 0 \<le> y \<and> y \<le> 1) (controlY bins numBars leftEdge rightEdge)
       \<and> (\<forall>x<STRIP_WIDTH. curveHeightsOf bins numBars leftEdge rightEdge ! x =
              max 0 (min 1 (curveAt bins numBars leftEdge rightEdge (real x))) * 96)
       \<and> list_all (\<lambda>h. 0 \<le> h \<and> h \<le> 96) (curveHeightsOf bins numBars leftEdge rightEdge)
       \<and> length (renderPixels bins themeName numBars leftEdge rightEdge) = STRIP_WIDTH * STRIP_HEIGHT * 4
       \<and> list_all (\<lambda>c. 0 \<le> c \<and> c \<le> 255) (renderPixels bins themeName numBars leftEdge rightEdge)
       \<and> (\<forall>c m. lutByte c \<and> (m = 1.6 \<or> m = 1.3 \<or> m = 1.1) \<longrightarrow> 0 \<le> glowChannel c m \<and> glowChannel c m \<le> 255)
       \<and> glowChannel (Some 255) 1.6 = 255 \<and> glowChannel (Some 255) 1.3 = 255 \<and> glowChannel (Some 255) 1.1 = 255"
proof -
  have 1: "list_all (\<lambda>v. 0 \<le> v \<and> v \<le> 1) (smoothedBins (fst (tick rawBins e)))"
    using engineInv_tick [OF reachable_inv [OF assms(1)], of rawBins] by (simp add: engineInv_def)
  note 2 = controlY_range [of bins numBars leftEdge rightEdge]
  have 3: "\<forall>x<STRIP_WIDTH. curveHeightsOf bins numBars leftEdge rightEdge ! x =
              max 0 (min 1 (curveAt bins numBars leftEdge rightEdge (real x))) * 96"
    using curveHeights_nth [of _ bins numBars leftEdge rightEdge] by (simp add: clamp01_def)
  note 4 = curveHeights_range [of bins numBars leftEdge rightEdge]
  have 5: "length (renderPixels bins themeName numBars leftEdge rightEdge) = STRIP_WIDTH * STRIP_HEIGHT * 4"
    by (simp add: renderPixels_length STRIP_WIDTH_def STRIP_HEIGHT_def)
  have 6: "list_all (\<lambda>c. 0 \<le> c \<and> c \<le> 255) (renderPixels bins themeName numBars leftEdge rightEdge)"
    using renderPixels_bytes [of bins themeName numBars leftEdge rightEdge]
    by (simp add: list_all_iff isByte_def)
  have 7: "\<forall>c m. lutByte c \<and> (m = 1.6 \<or> m = 1.3 \<or> m = 1.1) \<longrightarrow> 0 \<le> glowChannel c m \<and> glowChannel c m \<le> 255"
  proof (intro allI impI)
    fix c :: jsnum and m :: real
    assume a: "lutByte c \<and> (m = 1.6 \<or> m = 1.3 \<or> m = 1.1)"
    then have "0 \<le> m" "m \<le> 2" by auto
    with a have "isByte (glowChannel c m)" by (intro glowChannel_byte) simp_all
    then show "0 \<le> glowChannel c m \<and> glowChannel c m \<le> 255" by (simp add: isByte_def)
  qed
  have 8: "glowChannel (Some 255) 1.6 = 255 \<and> glowChannel (Some 255) 1.3 = 255 \<and> glowChannel (Some 255) 1.1 = 255"
    by (simp add: glowChannel_def jsMul_def jsAdd_def toInt32_def Let_def)
  from 1 2 3 4 5 6 7 8 show ?thesis by blast
qed

theorem values_stay_in_range_witness:
  "reachable (newAudioEngine :: unit AudioEngine) \<and> (5::nat) \<le> length [0.5, 33 / 64, 1, 1, 1 :: real]
   \<and> (5::nat) + 2 \<le> MAX_POINTS
   \<and> list_all (\<lambda>v. 0 \<le> v \<and> v \<le> 1) (smoothedBins (fst (tick (replicate 20 7) (newAudioEngine :: unit AudioEngine))))
   \<and> list_all (\<lambda>y. 0 \<le> y \<and> y \<le> 1) (controlY [0.5, 33 / 64, 1, 1, 1] 5 (- 3) 4)
   \<and> list_all (\<lambda>h. 0 \<le> h \<and> h \<le> 96) (curveHeightsOf [0.5, 33 / 64, 1, 1, 1] 5 (- 3) 4)
   \<and> list_all (\<lambda>c. 0 \<le> c \<and> c \<le> 255) (renderPixels [0.5, 33 / 64, 1, 1, 1] ''fire'' 5 (- 3) 4)"
proof -
  have h1: "reachable (newAudioEngine :: unit AudioEngine)" by (rule r_new)
  have h2: "(5::nat) \<le> length [0.5, 33 / 64, 1, 1, 1 :: real]" by simp
  have h3: "(5::nat) + 2 \<le> MAX_POINTS" by (simp add: MAX_POINTS_def)
  from values_stay_in_range [OF h1 h2 h3, of "replicate 20 7" "- 3" 4 "''fire''"] h1 h2 h3
  show ?thesis by blast
qed

text \<open>
  C1 fails on the code. With bins \<open>[0.5, 33/64, 1, 1, 1]\<close>, left edge 0.5 and right edge 1 the
  control-point heights are \<open>[0.5, 0.5, 33/64, 1, 1, 1, 1]\<close>, non-decreasing; pixel column 40 lies
  between the control points at 19.9 and 59.7, whose heights are 0.5 and 33/64; the value of
  \<open>evalCurve\<close> there is below both, and the curve height of column 40 is below the 48 of
  the columns to its left.
\<close>

theorem monotone_points_curve_undershoots:
  "sorted (controlY [0.5, 33 / 64, 1, 1, 1] 5 0.5 1)
   \<and> controlX 5 ! 1 \<le> 40 \<and> 40 \<le> controlX 5 ! 2
   \<and> controlY [0.5, 33 / 64, 1, 1, 1] 5 0.5 1 ! 1 = 0.5
   \<and> controlY [0.5, 33 / 64, 1, 1, 1] 5 0.5 1 ! 2 = 33 / 64
   \<and> curveAt [0.5, 33 / 64, 1, 1, 1] 5 0.5 1 40 = 240260873 / 504358336
   \<and> curveAt [0.5, 33 / 64, 1, 1, 1] 5 0.5 1 40 < 0.5
   \<and> curveHeightsOf [0.5, 33 / 64, 1, 1, 1] 5 0.5 1 ! 19 = 48
   \<and> curveHeightsOf [0.5, 33 / 64, 1, 1, 1] 5 0.5 1 ! 40 < 46"
proof -
  let ?B = "[0.5, 33 / 64, 1, 1, 1] :: real list"
  let ?X = "[0, 199 / 10, 597 / 10, 199 / 2, 1393 / 10, 1791 / 10, 199] :: real list"
  let ?Y = "[1 / 2, 1 / 2, 33 / 64, 1, 1, 1, 1] :: real list"
  let ?T = "[0, 0, 5 / 796, 0, 0, 0, 0] :: real list"
  have cx: "controlX 5 = ?X" by code_simp
  have cy: "controlY ?B 5 0.5 1 = ?Y" by code_simp
  have ct: "precomputeTangents ?X ?Y 7 = ?T" by code_simp
  have e40: "evalCurve ?X ?Y ?T 7 40 = 240260873 / 504358336" by code_simp
  have e19: "evalCurve ?X ?Y ?T 7 19 = 1 / 2" by code_simp
  have 1: "sorted (controlY ?B 5 0.5 1)" unfolding cy by simp
  have 2: "controlX 5 ! 1 \<le> 40" "40 \<le> controlX 5 ! 2" unfolding cx by simp_all
  have 3: "controlY ?B 5 0.5 1 ! 1 = 0.5" "controlY ?B 5 0.5 1 ! 2 = 33 / 64" unfolding cy by simp_all
  have 4: "curveAt ?B 5 0.5 1 40 = 240260873 / 504358336"
    unfolding curveAt_def Let_def cx cy by (simp add: ct e40)
  have 5: "curveAt ?B 5 0.5 1 (real 19) = 1 / 2"
    unfolding curveAt_def Let_def cx cy by (simp add: ct e19)
  have 6: "curveHeightsOf ?B 5 0.5 1 ! 19 = 48"
    using curveHeights_nth [of 19 ?B 5 "0.5" 1] unfolding 5 by (simp add: STRIP_WIDTH_def clamp01_def)
  have f40: "curveAt ?B 5 0.5 1 (real 40) = 240260873 / 504358336" using 4 by simp
  have 7: "curveHeightsOf ?B 5 0.5 1 ! 40 < 46"
    using curveHeights_nth [of 40 ?B 5 "0.5" 1] unfolding f40 by (simp add: STRIP_WIDTH_def clamp01_def)
  have 8: "curveAt ?B 5 0.5 1 40 < 0.5" unfolding 4 by simp
  from 1 2 3 4 6 7 8 show ?thesis by blast
qed

section \<open>The encoder against the formats\<close>

declare b64Loop.simps [simp del]
declare parseChunks.simps [simp del]

lemma mask6: "(0x3f :: 32 word) = mask 6"
  by (simp add: mask_eq_exp_minus_1)

lemma unat_ucast6: "unat (ucast (s :: 6 word) :: 32 word) = unat s"
proof -
  have "unat s < 2 ^ 32" using unsigned_less [of s, where 'a = nat] by simp
  then show ?thesis by (simp add: unsigned_ucast_eq take_bit_nat_eq_self)
qed

lemma table_char: "B64_TABLE (ucast (s :: 6 word)) = b64Char s"
  by (simp add: B64_TABLE_def b64Char_def unat_ucast6)

lemma sextets24:
  fixes a b c :: byte
  shows "drop_bit 2 (ucast a :: 32 word) AND 0x3f = ucast (ucast (drop_bit 18 (group24 a b c)) :: 6 word)"
    and "(push_bit 4 (ucast a :: 32 word) OR drop_bit 4 (ucast b)) AND 0x3f = ucast (ucast (drop_bit 12 (group24 a b c)) :: 6 word)"
    and "(push_bit 2 (ucast b :: 32 word) OR drop_bit 6 (ucast c)) AND 0x3f = ucast (ucast (drop_bit 6 (group24 a b c)) :: 6 word)"
    and "(ucast c :: 32 word) AND 0x3f = ucast (ucast (group24 a b c) :: 6 word)"
  unfolding mask6
  by (rule bit_word_eqI; auto simp add: bit_simps group24_def dest: bit_imp_le_length)+

lemma sextets18:
  fixes a b :: byte
  shows "drop_bit 2 (ucast a :: 32 word) AND 0x3f = ucast (ucast (drop_bit 12 (group18 a b)) :: 6 word)"
    and "(push_bit 4 (ucast a :: 32 word) OR drop_bit 4 (ucast b)) AND 0x3f = ucast (ucast (drop_bit 6 (group18 a b)) :: 6 word)"
    and "push_bit 2 (ucast b :: 32 word) AND 0x3f = ucast (ucast (group18 a b) :: 6 word)"
  unfolding mask6
  by (rule bit_word_eqI; auto simp add: bit_simps group18_def dest: bit_imp_le_length)+

lemma sextets12:
  fixes a :: byte
  shows "drop_bit 2 (ucast a :: 32 word) AND 0x3f = ucast (ucast (drop_bit 6 (group12 a)) :: 6 word)"
    and "push_bit 4 (ucast a :: 32 word) AND 0x3f = ucast (ucast (group12 a) :: 6 word)"
  unfolding mask6
  by (rule bit_word_eqI; auto simp add: bit_simps group12_def dest: bit_imp_le_length)+

lemma regroup24:
  fixes b0 b1 b2 :: byte
  defines "g \<equiv> group24 b0 b1 b2"
  defines "v \<equiv> (word_cat (ucast (drop_bit 18 g) :: 6 word) (word_cat (ucast (drop_bit 12 g) :: 6 word)
                (word_cat (ucast (drop_bit 6 g) :: 6 word) (ucast g :: 6 word) :: 12 word) :: 18 word) :: 24 word)"
  shows "ucast (drop_bit 16 v) = b0" and "ucast (drop_bit 8 v) = b1" and "ucast v = b2"
  unfolding v_def g_def
  by (rule bit_word_eqI; auto simp add: bit_simps group24_def dest: bit_imp_le_length)+

lemma regroup18:
  fixes b0 b1 :: byte
  defines "g \<equiv> group18 b0 b1"
  defines "v \<equiv> (word_cat (ucast (drop_bit 12 g) :: 6 word) (word_cat (ucast (drop_bit 6 g) :: 6 word) (ucast g :: 6 word) :: 12 word) :: 18 word)"
  shows "ucast (drop_bit 10 v) = b0" and "ucast (drop_bit 2 v) = b1"
  unfolding v_def g_def
  by (rule bit_word_eqI; auto simp add: bit_simps group18_def dest: bit_imp_le_length)+

lemma regroup12:
  fixes b0 :: byte
  defines "g \<equiv> group12 b0"
  shows "ucast (drop_bit 4 (word_cat (ucast (drop_bit 6 g) :: 6 word) (ucast g :: 6 word) :: 12 word)) = b0"
  unfolding g_def
  by (rule bit_word_eqI; auto simp add: bit_simps group12_def dest: bit_imp_le_length)

subsection \<open>The base64 loop\<close>

lemma quad24:
  fixes b0 b1 b2 :: byte
  shows "[B64_TABLE (drop_bit 2 (ucast b0) AND 0x3f),
          B64_TABLE ((push_bit 4 (ucast b0) OR drop_bit 4 (ucast b1)) AND 0x3f),
          B64_TABLE ((push_bit 2 (ucast b1) OR drop_bit 6 (ucast b2)) AND 0x3f),
          B64_TABLE (ucast b2 AND 0x3f)] = base64Std [b0, b1, b2]"
  by (simp add: sextets24 [where a = b0 and b = b1 and c = b2] table_char)

lemma quad18:
  fixes b0 b1 :: byte
  shows "[B64_TABLE (drop_bit 2 (ucast b0) AND 0x3f),
          B64_TABLE ((push_bit 4 (ucast b0) OR drop_bit 4 (ucast b1)) AND 0x3f),
          B64_TABLE (push_bit 2 (ucast b1) AND 0x3f), CHR 0x3d] = base64Std [b0, b1]"
  by (simp add: sextets18 [where a = b0 and b = b1] table_char)

lemma quad12:
  fixes b0 :: byte
  shows "[B64_TABLE (drop_bit 2 (ucast b0) AND 0x3f), B64_TABLE (push_bit 4 (ucast b0) AND 0x3f),
          CHR 0x3d, CHR 0x3d] = base64Std [b0]"
  by (simp add: sextets12 [where a = b0] table_char)

lemma base64Std_append: "length xs mod 3 = 0 \<Longrightarrow> base64Std (xs @ ys) = base64Std xs @ base64Std ys"
  by (induction xs rule: base64Std.induct) simp_all

lemma base64Std_length: "length (base64Std xs) = 4 * ((length xs + 2) div 3)"
proof (induction xs rule: base64Std.induct)
  case (1 b0 b1 b2 rest)
  have "(length (b0 # b1 # b2 # rest) + 2) div 3 = Suc ((length rest + 2) div 3)" by simp
  with 1 show ?case by simp
qed simp_all

lemma b64Loop_std:
  assumes "end3 \<le> length png"
  shows "si \<le> end3 \<Longrightarrow> (end3 - si) mod 3 = 0 \<Longrightarrow>
         b64Loop png end3 si out = (out @ base64Std (take (end3 - si) (drop si png)), end3)"
proof (induction "end3 - si" arbitrary: si out rule: less_induct)
  case less
  show ?case
  proof (cases "si < end3")
    case False
    with less.prems have "si = end3" by simp
    then show ?thesis by (simp add: b64Loop.simps [of png end3 end3])
  next
    case True
    with less.prems have three: "si + 3 \<le> end3" by presburger
    then have len: "si + 2 < length png" using assms by simp
    have dr: "drop si png = png ! si # png ! (si + 1) # png ! (si + 2) # drop (si + 3) png"
      using len by (simp add: Cons_nth_drop_Suc add.commute numeral_3_eq_3)
    define d where "d = end3 - (si + 3)"
    have d: "end3 - si = Suc (Suc (Suc d))" using three by (simp add: d_def)
    have d': "end3 - (si + 3) = d" by (simp add: d_def)
    have step: "b64Loop png end3 si out =
        b64Loop png end3 (si + 3) (out @ base64Std [png ! si, png ! (si + 1), png ! (si + 2)])"
      using True
      by (subst b64Loop.simps) (simp only: Let_def quad24 if_True)
    have "(end3 - (si + 3)) mod 3 = 0" using less.prems three by presburger
    moreover have "end3 - (si + 3) < end3 - si" using three by simp
    ultimately have ih: "b64Loop png end3 (si + 3) out' =
        (out' @ base64Std (take (end3 - (si + 3)) (drop (si + 3) png)), end3)" for out'
      using less.hyps three by simp
    show ?thesis
      unfolding step ih dr d d' by simp
  qed
qed

lemma base64Into_std:
  assumes "pngLen \<le> length png"
  shows "base64Into png pngLen = base64Std (take pngLen png)"
proof -
  define rem where "rem = pngLen mod 3"
  define e where "e = pngLen - rem"
  have e: "e \<le> length png" using assms by (simp add: e_def)
  have m: "(e - 0) mod 3 = 0" unfolding e_def rem_def by presburger
  have loop: "b64Loop png e 0 [] = (base64Std (take e png), e)"
    using b64Loop_std [OF e, of 0 "[]"] m by simp
  have into: "base64Into png pngLen = base64Std (take e png) @ b64Tail png e rem"
    unfolding base64Into_def Let_def rem_def [symmetric] e_def [symmetric] loop by simp
  have l3: "length (take e png) mod 3 = 0" using e m by (simp add: min_def)
  have split: "pngLen = e + rem" "rem < 3" unfolding e_def rem_def by simp_all
  consider "rem = 0" | "rem = 1" | "rem = 2" using split(2) by linarith
  then show ?thesis
  proof cases
    case 1
    then have t: "b64Tail png e rem = []" by (simp add: b64Tail_def)
    from 1 split have p: "take pngLen png = take e png" by simp
    show ?thesis unfolding into t p by simp
  next
    case 2
    then have lt: "e < length png" and s: "pngLen = Suc e" using assms split by simp_all
    have "take pngLen png = take e png @ [png ! e]"
      using lt unfolding s by (simp only: take_Suc_conv_app_nth)
    then have "base64Std (take pngLen png) = base64Std (take e png) @ base64Std [png ! e]"
      using l3 by (simp only: base64Std_append)
    moreover have "b64Tail png e 1 = base64Std [png ! e]"
      unfolding b64Tail_def Let_def by (simp only: quad12) simp
    ultimately show ?thesis using 2 by (simp only: into)
  next
    case 3
    then have lt: "Suc e < length png" and s: "pngLen = Suc (Suc e)" using assms split by simp_all
    have "take pngLen png = take e png @ [png ! e, png ! (e + 1)]"
      using lt unfolding s by (simp add: take_Suc_conv_app_nth)
    then have "base64Std (take pngLen png) = base64Std (take e png) @ base64Std [png ! e, png ! (e + 1)]"
      using l3 by (simp only: base64Std_append)
    moreover have "b64Tail png e 2 = base64Std [png ! e, png ! (e + 1)]"
      unfolding b64Tail_def Let_def by (simp only: quad18) simp
    ultimately show ?thesis using 3 by (simp only: into)
  qed
qed

subsection \<open>Decoding\<close>

lemma B64_CHARS_props: "distinct B64_CHARS" "length B64_CHARS = 64" "CHR ''='' \<notin> set B64_CHARS"
  by (simp_all add: B64_CHARS_def)

lemma unat_6_less: "unat (s :: 6 word) < 64"
  using unsigned_less [of s, where 'a = nat] by simp

lemma b64Value_char: "b64Value (b64Char s) = Some s"
proof -
  have "map_of (zip B64_CHARS [0..<64]) (B64_CHARS ! unat s) = Some ([0..<64] ! unat s)"
    by (rule map_of_zip_nth) (simp_all add: B64_CHARS_props unat_6_less)
  then show ?thesis by (simp add: b64Value_def b64Char_def unat_6_less)
qed

lemma b64Char_not_pad: "b64Char s \<noteq> CHR ''=''"
proof -
  have "b64Char s \<in> set B64_CHARS"
    unfolding b64Char_def by (rule nth_mem) (simp add: B64_CHARS_props unat_6_less)
  with B64_CHARS_props(3) show ?thesis by metis
qed

lemma base64_roundtrip: "base64Decode (base64Std bs) = Some bs"
proof (induction bs rule: base64Std.induct)
  case (1 b0 b1 b2 rest)
  then show ?case
    by (simp add: decodeQuad_def b64Value_char b64Char_not_pad Let_def regroup24)
next
  case (2 b0 b1)
  then show ?case
    by (simp add: decodeQuad_def b64Value_char b64Char_not_pad Let_def regroup18)
next
  case (3 b0)
  then show ?case
    by (simp add: decodeQuad_def b64Value_char b64Char_not_pad Let_def regroup12)
next
  case 4
  then show ?case by simp
qed

subsection \<open>The raw buffer\<close>

lemma updates_length: "length (foldl (\<lambda>buf i. buf[off + i := f i]) buf js) = length buf"
  by (induction js arbitrary: buf) simp_all

lemma updates_nth:
  "foldl (\<lambda>buf i. buf[off + i := f i]) buf [0..<n] ! p =
     (if off \<le> p \<and> p < off + n \<and> p < length buf then f (p - off) else buf ! p)"
proof (induction n)
  case 0
  show ?case by auto
next
  case (Suc n)
  define b where "b = foldl (\<lambda>buf i. buf[off + i := f i]) buf [0..<n]"
  have len: "length b = length buf" unfolding b_def by (rule updates_length)
  have ih: "b ! p = (if off \<le> p \<and> p < off + n \<and> p < length buf then f (p - off) else buf ! p)"
    unfolding b_def by (rule Suc.IH)
  have st: "foldl (\<lambda>buf i. buf[off + i := f i]) buf [0..<Suc n] = b[off + n := f n]"
    by (simp add: b_def)
  show ?case
  proof (cases "p = off + n \<and> p < length buf")
    case True
    then show ?thesis unfolding st by (simp add: len)
  next
    case False
    have "b[off + n := f n] ! p = b ! p"
    proof (cases "off + n < length buf")
      case True
      with False show ?thesis by (auto simp add: len nth_list_update)
    next
      case False
      then have "length b \<le> off + n" by (simp add: len)
      then show ?thesis by (simp only: list_update_beyond)
    qed
    moreover have "(off \<le> p \<and> p < off + Suc n \<and> p < length buf) = (off \<le> p \<and> p < off + n \<and> p < length buf)"
      using False by auto
    ultimately show ?thesis unfolding st ih by (simp only:)
  qed
qed

lemma copyRow_length: "length (copyRow rgba buf y) = length buf"
  unfolding copyRow_def Let_def by (rule updates_length)

lemma copyRow_nth:
  "copyRow rgba buf y ! p =
     (if y * 801 + 1 \<le> p \<and> p < y * 801 + 1 + 800 \<and> p < length buf
      then readU8Byte rgba (y * 800 + (p - (y * 801 + 1))) else buf ! p)"
  unfolding copyRow_def Let_def updates_nth by (simp add: ROW_SIZE_def WIDTH_def)

lemma copyRows_length: "length (copyRows rgba h buf) = length buf"
  by (induction h) (simp_all add: copyRows_def copyRow_length)

lemma copyRows_Suc: "copyRows rgba (Suc h) buf = copyRow rgba (copyRows rgba h buf) h"
  by (simp add: copyRows_def)

lemma copyRows_filter: "copyRows rgba h buf ! (y * 801) = buf ! (y * 801)"
proof (induction h)
  case 0
  show ?case by (simp add: copyRows_def)
next
  case (Suc h)
  have "\<not> (h * 801 + 1 \<le> y * 801 \<and> y * 801 < h * 801 + 1 + 800)"
    by (cases "y \<le> h") (auto simp add: not_le Suc_le_eq dest!: mult_le_mono1 [where k = 801])
  then have c: "\<not> (h * 801 + 1 \<le> y * 801 \<and> y * 801 < h * 801 + 1 + 800 \<and> y * 801 < length (copyRows rgba h buf))"
    by blast
  show ?case by (simp only: copyRows_Suc copyRow_nth if_not_P [OF c] Suc)
qed

lemma copyRows_pixel:
  assumes "y < h" and "i < 800" and "y * 801 + 1 + i < length buf"
  shows "copyRows rgba h buf ! (y * 801 + 1 + i) = readU8Byte rgba (y * 800 + i)"
  using assms(1)
proof (induction h)
  case 0
  then show ?case by simp
next
  case (Suc h)
  show ?case
  proof (cases "y = h")
    case True
    then show ?thesis using assms(2) assms(3)
      by (simp add: copyRows_Suc copyRow_nth copyRows_length)
  next
    case False
    with Suc.prems have lt: "y < h" by simp
    then have "Suc y \<le> h" by simp
    then have "Suc y * 801 \<le> h * 801" by (rule mult_le_mono1)
    then have "\<not> (h * 801 + 1 \<le> y * 801 + 1 + i)" using assms(2) by simp
    then show ?thesis using Suc.IH [OF lt] by (simp add: copyRows_Suc copyRow_nth)
  qed
qed

lemma copyRows_rows:
  assumes len: "length rgba = 80000" and raw: "length buf = 80100"
    and filt: "\<forall>y<100. buf ! (y * 801) = 0" and y: "y < 100"
  shows "rowOf 801 (copyRows rgba 100 buf) y = 0 # rowOf 800 rgba y"
proof (rule nth_equalityI)
  have "y * 801 + 801 \<le> 80100" "y * 800 + 800 \<le> 80000" using y by simp_all
  then show l: "length (rowOf 801 (copyRows rgba 100 buf) y) = length (0 # rowOf 800 rgba y)"
    using len raw by (simp add: rowOf_def copyRows_length)
  fix k
  assume "k < length (rowOf 801 (copyRows rgba 100 buf) y)"
  then have k: "k < 801" by (simp add: rowOf_def)
  have in_raw: "y * 801 + k < 80100" using y k by simp
  show "rowOf 801 (copyRows rgba 100 buf) y ! k = (0 # rowOf 800 rgba y) ! k"
  proof (cases k)
    case 0
    then show ?thesis using filt y in_raw raw
      by (simp add: rowOf_def copyRows_length copyRows_filter)
  next
    case (Suc i)
    then have i: "i < 800" using k by simp
    have src: "y * 800 + i < 80000" using y i by simp
    have "copyRows rgba 100 buf ! (y * 801 + 1 + i) = readU8Byte rgba (y * 800 + i)"
      using y i in_raw raw Suc by (intro copyRows_pixel) simp_all
    then show ?thesis using Suc i src in_raw raw len
      by (simp add: rowOf_def copyRows_length readU8Byte_def add.commute)
  qed
qed

subsection \<open>The PNG container\<close>

lemma u32be_length: "length (u32be w) = 4"
  by (simp add: u32be_def)

lemma asciiBytes_length: "length (asciiBytes s) = length s"
  by (simp add: asciiBytes_def)

lemma be32_u32be: "be32 (u32be w) = unat w"
proof -
  have "(word_cat (ucast (drop_bit 24 w) :: byte)
           (word_cat (ucast (drop_bit 16 w) :: byte)
              (word_cat (ucast (drop_bit 8 w) :: byte) (ucast w :: byte) :: 16 word) :: 24 word) :: 32 word) = w"
    by (rule bit_word_eqI) (auto simp add: bit_simps dest: bit_imp_le_length)
  then show ?thesis by (simp add: be32_def u32be_def)
qed

lemma crc32_slice: "crc32 (pre @ xs @ post) (length pre) (length xs) = crc32 xs 0 (length xs)"
proof -
  let ?step = "\<lambda>buf crc i. crcTable ! unat ((crc XOR ucast (buf ! i)) AND 0xff) XOR drop_bit 8 crc"
  have idx: "[length pre..<length pre + length xs] = map (\<lambda>i. i + length pre) [0..<length xs]"
    by (simp add: map_add_upt add.commute)
  have "foldl (?step (pre @ xs @ post)) c (map (\<lambda>i. i + length pre) js) = foldl (?step xs) c js"
    if "set js \<subseteq> {..<length xs}" for c js
    using that by (induction js arbitrary: c) (simp_all add: nth_append)
  moreover have "set [0..<length xs] \<subseteq> {..<length xs}" by auto
  ultimately have "foldl (?step (pre @ xs @ post)) c (map (\<lambda>i. i + length pre) [0..<length xs]) =
      foldl (?step xs) c [0..<length xs]" for c
    by blast
  then show ?thesis
    unfolding crc32_def idx by simp
qed

lemma pngBytes_layout:
  "pngBytes deflateSync rawBuf =
     PNG_SIGNATURE @ pngChunk ''IHDR'' IHDR_DATA @ pngChunk ''IDAT'' (deflateSync rawBuf) @ pngChunk ''IEND'' []"
proof -
  let ?c = "deflateSync rawBuf"
  let ?pre1 = "PNG_SIGNATURE @ u32be 13"
  let ?x1 = "asciiBytes ''IHDR'' @ IHDR_DATA"
  have l1: "length ?pre1 = IHDR_OFF + 4" "length ?x1 = 17" "length IHDR_DATA = 13"
    by (simp_all add: PNG_SIGNATURE_def u32be_length asciiBytes_length IHDR_DATA_def IHDR_OFF_def)
  have c1: "crc32 (?pre1 @ ?x1) (IHDR_OFF + 4) 17 = crc32 ?x1 0 17"
    using crc32_slice [of ?pre1 ?x1 "[]"] unfolding l1 by simp
  have hdr: "pngHeader = PNG_SIGNATURE @ pngChunk ''IHDR'' IHDR_DATA"
    unfolding pngHeader_def Let_def pngChunk_def l1 using c1 by simp
  have lh: "length pngHeader = IDAT_OFF"
    unfolding hdr by (simp add: PNG_SIGNATURE_def pngChunk_def u32be_length asciiBytes_length l1 IDAT_OFF_def IHDR_OFF_def)
  let ?pre2 = "pngHeader @ u32be (of_nat (length ?c))"
  let ?x2 = "asciiBytes ''IDAT'' @ ?c"
  have l2: "length ?pre2 = IDAT_OFF + 4" "length ?x2 = 4 + length ?c"
    by (simp_all add: lh u32be_length asciiBytes_length)
  have c2: "crc32 (?pre2 @ ?x2) (IDAT_OFF + 4) (4 + length ?c) = crc32 ?x2 0 (4 + length ?c)"
    using crc32_slice [of ?pre2 ?x2 "[]"] unfolding l2 by simp
  let ?p1 = "?pre2 @ ?x2 @ u32be (crc32 ?x2 0 (4 + length ?c))"
  let ?pre3 = "?p1 @ u32be 0"
  let ?x3 = "asciiBytes ''IEND''"
  have l3: "length ?pre3 = IDAT_OFF + 8 + length ?c + 4 + 4" "length ?x3 = 4"
    by (simp_all add: lh u32be_length asciiBytes_length)
  have c3: "crc32 (?pre3 @ ?x3) (IDAT_OFF + 8 + length ?c + 4 + 4) 4 = crc32 ?x3 0 4"
    using crc32_slice [of ?pre3 ?x3 "[]"] unfolding l3 by simp
  have "pngBytes deflateSync rawBuf = ?pre3 @ ?x3 @ u32be (crc32 ?x3 0 4)"
    unfolding pngBytes_def Let_def using c2 c3 by simp
  also have "\<dots> = pngHeader @ pngChunk ''IDAT'' ?c @ pngChunk ''IEND'' []"
    by (simp add: pngChunk_def)
  finally show ?thesis unfolding hdr by simp
qed

lemma pngBytes_length: "length (pngBytes deflateSync rawBuf) = IDAT_OFF + 8 + length (deflateSync rawBuf) + 4 + 12"
  unfolding pngBytes_layout
  by (simp add: PNG_SIGNATURE_def pngChunk_def u32be_length asciiBytes_length IHDR_DATA_def IDAT_OFF_def IHDR_OFF_def)

lemma parseChunks_chunk:
  assumes "length ty = 4" and "length dat < 2 ^ 32"
  shows "parseChunks (pngChunk ty dat @ rest) =
           (case parseChunks rest of None \<Rightarrow> None | Some cs \<Rightarrow> Some ((asciiBytes ty, dat) # cs))"
proof -
  let ?bs = "pngChunk ty dat @ rest"
  let ?crc = "u32be (crc32 (asciiBytes ty @ dat) 0 (4 + length dat))"
  have bs: "?bs = u32be (of_nat (length dat)) @ asciiBytes ty @ dat @ ?crc @ rest"
    by (simp add: pngChunk_def)
  have n: "be32 (take 4 ?bs) = length dat"
    unfolding bs using assms(2) by (simp add: u32be_length be32_u32be unat_of_nat)
  have t: "take 4 (drop 4 ?bs) = asciiBytes ty"
    unfolding bs using assms(1) by (simp add: u32be_length asciiBytes_length)
  have d: "take (length dat) (drop 8 ?bs) = dat"
    unfolding bs using assms(1) by (simp add: u32be_length asciiBytes_length)
  have c: "take 4 (drop (8 + length dat) ?bs) = ?crc"
    unfolding bs using assms(1) by (simp add: u32be_length asciiBytes_length)
  have r: "drop (12 + length dat) ?bs = rest"
    unfolding bs using assms(1) by (simp add: u32be_length asciiBytes_length)
  have l: "\<not> length ?bs < 12" "\<not> length ?bs < 12 + length dat" "?bs \<noteq> []"
    unfolding bs using assms(1) by (simp_all add: u32be_length asciiBytes_length u32be_def)
  show ?thesis
    by (subst parseChunks.simps) (simp only: Let_def n t d c r l if_False not_False_eq_True simp_thms)
qed

lemma idatPayload_png:
  assumes "length (deflateSync rawBuf) < 2 ^ 32"
  shows "idatPayload (pngBytes deflateSync rawBuf) = Some (deflateSync rawBuf)"
proof -
  have e: "parseChunks [] = Some []" by (simp add: parseChunks.simps)
  have p3: "parseChunks (pngChunk ''IEND'' []) = Some [(asciiBytes ''IEND'', [])]"
    using parseChunks_chunk [of "''IEND''" "[]" "[]"] by (simp add: e)
  have p2: "parseChunks (pngChunk ''IDAT'' (deflateSync rawBuf) @ pngChunk ''IEND'' []) =
          Some [(asciiBytes ''IDAT'', deflateSync rawBuf), (asciiBytes ''IEND'', [])]"
    using parseChunks_chunk [of "''IDAT''" "deflateSync rawBuf" "pngChunk ''IEND'' []"] assms
    by (simp add: p3)
  have "length IHDR_DATA < 2 ^ 32" by (simp add: IHDR_DATA_def u32be_length)
  then have "parseChunks (pngChunk ''IHDR'' IHDR_DATA @ pngChunk ''IDAT'' (deflateSync rawBuf) @ pngChunk ''IEND'' []) =
          Some [(asciiBytes ''IHDR'', IHDR_DATA), (asciiBytes ''IDAT'', deflateSync rawBuf), (asciiBytes ''IEND'', [])]"
    using parseChunks_chunk [of "''IHDR''" IHDR_DATA "pngChunk ''IDAT'' (deflateSync rawBuf) @ pngChunk ''IEND'' []"]
    by (simp add: p2)
  then show ?thesis
    by (simp add: idatPayload_def pngBytes_layout PNG_SIGNATURE_def asciiBytes_def)
qed

lemma base64Into_example:
  "base64Into [77, 97, 110] 3 = ''TWFu'' \<and> base64Into [77, 97] 2 = ''TWE='' \<and> base64Into [77] 1 = ''TQ==''"
  by code_simp

lemma encodePNGToDataURI_eq:
  assumes "length (deflateSync (copyRows rgba height rawBuf0)) \<le> MAX_COMPRESSED"
  shows "encodePNGToDataURI deflateSync width height rgba rawBuf0 =
           Inr (DATA_URI_PREFIX @ base64Std (pngBytes deflateSync (copyRows rgba height rawBuf0)),
                copyRows rgba height rawBuf0)"
proof -
  let ?raw = "copyRows rgba height rawBuf0"
  let ?png = "pngBytes deflateSync ?raw"
  have "encodePNGToDataURI deflateSync width height rgba rawBuf0 =
          Inr (DATA_URI_PREFIX @ base64Into ?png (IDAT_OFF + 8 + length (deflateSync ?raw) + 4 + 12), ?raw)"
    using assms by (simp add: encodePNGToDataURI_def pngBytes_def Let_def)
  also have "base64Into ?png (IDAT_OFF + 8 + length (deflateSync ?raw) + 4 + 12) = base64Std ?png"
    using base64Into_std [of "length ?png" ?png] by (simp add: pngBytes_length)
  finally show ?thesis .
qed

text \<open>
  C6. For a 200 x 100 RGBA buffer, a raw buffer whose filter bytes are 0 (as allocated, and as
  every call leaves it) and a compressor whose output fits \<open>pngOut\<close> and that \<open>inflateSync\<close>
  inverts on the raw buffer: the string returned is the prefix \<open>data:image/png;base64,\<close>
  followed by the standard base64 text of the assembled PNG bytes (signature, IHDR, IDAT and
  IEND chunks), four characters for every three bytes with padding; decoding the text behind
  the prefix gives back the PNG bytes;
  the PNG's IDAT payload inflates to the raw buffer; and each of its 100 rows is a zero filter
  byte followed by the corresponding 800-byte pixel row.
\<close>

theorem encodePNG_data_uri_roundtrip:
  assumes "height = HEIGHT" and "length rgba = WIDTH * HEIGHT * 4"
    and "length rawBuf0 = RAW_SIZE" and "\<forall>y<HEIGHT. rawBuf0 ! (y * (ROW_SIZE + 1)) = 0"
    and "length (deflateSync (copyRows rgba height rawBuf0)) \<le> MAX_COMPRESSED"
    and "inflateSync (deflateSync (copyRows rgba height rawBuf0)) = copyRows rgba height rawBuf0"
  shows "\<exists>uri rawBuf. encodePNGToDataURI deflateSync width height rgba rawBuf0 = Inr (uri, rawBuf)
       \<and> uri = DATA_URI_PREFIX @ base64Std (pngBytes deflateSync rawBuf)
       \<and> pngBytes deflateSync rawBuf =
             PNG_SIGNATURE @ pngChunk ''IHDR'' IHDR_DATA @ pngChunk ''IDAT'' (deflateSync rawBuf) @ pngChunk ''IEND'' []
       \<and> length uri = 22 + 4 * ((length (pngBytes deflateSync rawBuf) + 2) div 3)
       \<and> base64Decode (drop (length DATA_URI_PREFIX) uri) = Some (pngBytes deflateSync rawBuf)
       \<and> map_option inflateSync (idatPayload (pngBytes deflateSync rawBuf)) = Some rawBuf
       \<and> length rawBuf = RAW_SIZE
       \<and> (\<forall>y<HEIGHT. rawBuf ! (y * (ROW_SIZE + 1)) = 0)
       \<and> (\<forall>y<HEIGHT. rowOf (ROW_SIZE + 1) rawBuf y = 0 # rowOf ROW_SIZE rgba y)"
proof -
  let ?raw = "copyRows rgba height rawBuf0"
  let ?png = "pngBytes deflateSync ?raw"
  let ?uri = "DATA_URI_PREFIX @ base64Std ?png"
  have kn: "HEIGHT = 100" "ROW_SIZE = 800" "RAW_SIZE = 80100" "WIDTH = 200" "MAX_COMPRESSED = 81124"
    by (simp_all add: HEIGHT_def ROW_SIZE_def RAW_SIZE_def WIDTH_def MAX_COMPRESSED_def)
  have 1: "encodePNGToDataURI deflateSync width height rgba rawBuf0 = Inr (?uri, ?raw)"
    using assms(5) by (rule encodePNGToDataURI_eq)
  have 3: "length ?uri = 22 + 4 * ((length ?png + 2) div 3)"
    by (simp add: DATA_URI_PREFIX_def base64Std_length)
  have 4: "base64Decode (drop (length DATA_URI_PREFIX) ?uri) = Some ?png"
    by (simp add: base64_roundtrip)
  have "length (deflateSync ?raw) < 2 ^ 32" using assms(5) by (simp add: kn)
  then have "idatPayload ?png = Some (deflateSync ?raw)" by (rule idatPayload_png)
  then have 5: "map_option inflateSync (idatPayload ?png) = Some ?raw" using assms(6) by simp
  have 6: "length ?raw = RAW_SIZE" using assms(3) by (simp add: copyRows_length)
  have f: "\<forall>y<100. rawBuf0 ! (y * 801) = 0" using assms(4) by (simp add: kn)
  have 7: "\<forall>y<HEIGHT. ?raw ! (y * (ROW_SIZE + 1)) = 0"
    using f by (simp add: kn copyRows_filter)
  have 8: "\<forall>y<HEIGHT. rowOf (ROW_SIZE + 1) ?raw y = 0 # rowOf ROW_SIZE rgba y"
  proof (intro allI impI)
    fix y
    assume "y < HEIGHT"
    then have y: "y < 100" by (simp add: kn)
    have "rowOf 801 (copyRows rgba 100 rawBuf0) y = 0 # rowOf 800 rgba y"
      using assms(2) assms(3) f y unfolding kn by (intro copyRows_rows) simp_all
    then show "rowOf (ROW_SIZE + 1) ?raw y = 0 # rowOf ROW_SIZE rgba y"
      using assms(1) by (simp add: kn)
  qed
  note 2 = pngBytes_layout [of deflateSync ?raw]
  from 1 2 3 4 5 6 7 8 show ?thesis by blast
qed

theorem encodePNG_data_uri_roundtrip_witness:
  "(100::nat) = HEIGHT \<and> length (replicate 80000 (0::byte)) = WIDTH * HEIGHT * 4
   \<and> length newRawBuf = RAW_SIZE \<and> list_all (\<lambda>y. newRawBuf ! (y * (ROW_SIZE + 1)) = 0) [0..<HEIGHT]
   \<and> (\<exists>uri rawBuf. encodePNGToDataURI (\<lambda>raw. raw) 200 100 (replicate 80000 0) newRawBuf = Inr (uri, rawBuf)
        \<and> take 22 uri = ''data:image/png;base64,''
        \<and> length uri = 22 + 4 * ((33 + 12 + 80100 + 12 + 2) div 3)
        \<and> base64Decode (drop 22 uri) = Some (pngBytes (\<lambda>raw. raw) rawBuf)
        \<and> idatPayload (pngBytes (\<lambda>raw. raw) rawBuf) = Some rawBuf
        \<and> rowOf 801 rawBuf 99 = replicate 801 0)"
proof -
  let ?rgba = "replicate 80000 (0::byte)"
  have kn: "HEIGHT = 100" "ROW_SIZE = 800" "RAW_SIZE = 80100" "WIDTH = 200" "MAX_COMPRESSED = 81124"
    by (simp_all add: HEIGHT_def ROW_SIZE_def RAW_SIZE_def WIDTH_def MAX_COMPRESSED_def)
  have h1: "(100::nat) = HEIGHT" by (simp add: kn)
  have h2: "length ?rgba = WIDTH * HEIGHT * 4" by (simp add: kn)
  have h3: "length newRawBuf = RAW_SIZE" by (simp add: newRawBuf_def)
  have h4: "\<forall>y<HEIGHT. newRawBuf ! (y * (ROW_SIZE + 1)) = 0"
    by (simp add: newRawBuf_def kn)
  have h4': "list_all (\<lambda>y. newRawBuf ! (y * (ROW_SIZE + 1)) = 0) [0..<HEIGHT]"
    using h4 by (simp add: list_all_iff)
  have h5: "length ((\<lambda>raw. raw) (copyRows ?rgba 100 newRawBuf)) \<le> MAX_COMPRESSED"
    by (simp add: copyRows_length newRawBuf_def kn)
  have h6: "(\<lambda>raw. raw) ((\<lambda>raw. raw) (copyRows ?rgba 100 newRawBuf)) = copyRows ?rgba 100 newRawBuf"
    by simp
  from encodePNG_data_uri_roundtrip [where inflateSync = "\<lambda>raw. raw" and deflateSync = "\<lambda>raw. raw"
      and width = 200 and height = 100 and rgba = ?rgba and ?rawBuf0.0 = newRawBuf, OF h1 h2 h3 h4 h5 h6]
  obtain uri rawBuf where r: "encodePNGToDataURI (\<lambda>raw. raw) 200 100 ?rgba newRawBuf = Inr (uri, rawBuf)"
    and u: "uri = DATA_URI_PREFIX @ base64Std (pngBytes (\<lambda>raw. raw) rawBuf)"
    and l: "length uri = 22 + 4 * ((length (pngBytes (\<lambda>raw. raw) rawBuf) + 2) div 3)"
    and d: "base64Decode (drop (length DATA_URI_PREFIX) uri) = Some (pngBytes (\<lambda>raw. raw) rawBuf)"
    and p: "map_option (\<lambda>raw. raw) (idatPayload (pngBytes (\<lambda>raw. raw) rawBuf)) = Some rawBuf"
    and n: "length rawBuf = RAW_SIZE"
    and rows: "\<forall>y<HEIGHT. rowOf (ROW_SIZE + 1) rawBuf y = 0 # rowOf ROW_SIZE ?rgba y"
    by blast
  have a: "take 22 uri = ''data:image/png;base64,''" unfolding u by (simp add: DATA_URI_PREFIX_def)
  have b: "length uri = 22 + 4 * ((33 + 12 + 80100 + 12 + 2) div 3)"
    unfolding l by (simp add: pngBytes_length n kn IDAT_OFF_def IHDR_OFF_def)
  have "length DATA_URI_PREFIX = 22" by (simp add: DATA_URI_PREFIX_def)
  with d have c: "base64Decode (drop 22 uri) = Some (pngBytes (\<lambda>raw. raw) rawBuf)"
    by (simp only:)
  have e: "idatPayload (pngBytes (\<lambda>raw. raw) rawBuf) = Some rawBuf"
    using p by (simp add: option.map_ident)
  have "rowOf 801 rawBuf 99 = 0 # rowOf 800 ?rgba 99"
    using rows by (simp add: kn)
  then have f: "rowOf 801 rawBuf 99 = replicate 801 0"
    by (simp add: rowOf_def replicate_Suc [symmetric] del: replicate_Suc)
  from h1 h2 h3 h4' r a b c e f show ?thesis by blast
qed

end
